theory Spec2Isabelle
  imports Complex_Main "HOL-Library.Word"
begin

unbundle bit_operations_syntax

section \<open>Conventions of the embedding\<close>

text \<open>
  The development embeds the scalar field, the prime field wrappers, the point
  arithmetic and the protocol entry points of \<^verbatim>\<open>ecc.c\<close>.

  \<^item> A limb array (\<^verbatim>\<open>mp_limb_t *\<close>) that a routine uses with \<open>k\<close> limbs is the
    natural number its limbs denote, below \<open>2 ^ (GMP_NUMB_BITS * k)\<close>; every routine
    that reads or writes \<open>k\<close> limbs reduces modulo that power, so truncation and
    wrap-around stay visible.
  \<^item> A byte buffer is a list of 8-bit words.
  \<^item> A C function that can abort in an \<^verbatim>\<open>assert\<close> returns an option: \<open>None\<close> is
    "the call does not return".  A loop without a syntactic bound is a
    \<^theory_text>\<open>partial_function\<close> in the option monad, where \<open>None\<close> is also divergence.
  \<^item> \<^verbatim>\<open>mpn.h\<close> and the \<^verbatim>\<open>fields/*.h\<close> backends are not part of the file.
    The limb width \<^verbatim>\<open>GMP_NUMB_BITS\<close> is carried by the scalar field record, and the
    \<^verbatim>\<open>mpn_*\<close> primitives are modelled by their arithmetic contract.
\<close>

type_synonym byte = "8 word"

section \<open>Helpers\<close>

text \<open>\<^verbatim>\<open>bytes_lt\<close>: one pass from the most significant byte down, on 32-bit flags.\<close>

definition bytes_lt_step :: "32 word \<times> 32 word \<Rightarrow> byte \<times> byte \<Rightarrow> 32 word \<times> 32 word" where
  "bytes_lt_step s ab =
     (let eq = fst s; lt = snd s;
          x = (ucast (fst ab) :: 32 word); y = (ucast (snd ab) :: 32 word);
          lt' = ((eq XOR 1) AND lt) OR (eq AND drop_bit 31 (x - y));
          eq' = eq AND drop_bit 31 ((x XOR y) - 1)
      in (eq', lt'))"

definition bytes_lt :: "byte list \<Rightarrow> byte list \<Rightarrow> nat \<Rightarrow> int \<Rightarrow> 32 word" where
  "bytes_lt a b len endian =
     (let le = (endian = - 1);
          order = (if le then rev [0..<len] else [0..<len]);
          s = foldl (\<lambda>s i. bytes_lt_step s (a ! i, b ! i)) (1, 0) order
      in snd s AND (fst s XOR 1))"

section \<open>The mpn primitives\<close>

text \<open>
  Modelled from the spec: the \<^verbatim>\<open>mpn_*\<close> routines of \<^verbatim>\<open>mpn.h\<close> are missing from the
  sources.  The spec (section 3) describes a scalar as a saturated limb array, and
  section 4.1 describes import as a big- or little-endian decode into \<open>limbs\<close> words;
  the routines below are the usual multi-precision contracts on the value of the
  limbs: an \<open>n\<close>-limb operand is read modulo \<open>2 ^ (w * n)\<close>, an \<open>n\<close>-limb result is
  stored modulo \<open>2 ^ (w * n)\<close>, and the carry or borrow is returned beside it.
\<close>

definition limbs_val :: "nat \<Rightarrow> nat \<Rightarrow> nat \<Rightarrow> nat" where
  "limbs_val w n a = a mod 2 ^ (w * n)"

definition limb_at :: "nat \<Rightarrow> nat \<Rightarrow> nat \<Rightarrow> nat" where
  "limb_at w a i = (a div 2 ^ (w * i)) mod 2 ^ w"

definition mpn_add_n :: "nat \<Rightarrow> nat \<Rightarrow> nat \<Rightarrow> nat \<Rightarrow> nat \<times> nat" where
  "mpn_add_n w a b n =
     (let s = limbs_val w n a + limbs_val w n b
      in (s mod 2 ^ (w * n), s div 2 ^ (w * n)))"

definition mpn_sub_n :: "nat \<Rightarrow> nat \<Rightarrow> nat \<Rightarrow> nat \<Rightarrow> nat \<times> nat" where
  "mpn_sub_n w a b n =
     (let x = limbs_val w n a; y = limbs_val w n b
      in if y \<le> x then (x - y, 0) else (x + 2 ^ (w * n) - y, 1))"

definition mpn_add_1 :: "nat \<Rightarrow> nat \<Rightarrow> nat \<Rightarrow> nat \<Rightarrow> nat \<times> nat" where
  "mpn_add_1 w a n b =
     (let s = limbs_val w n a + limbs_val w 1 b
      in (s mod 2 ^ (w * n), s div 2 ^ (w * n)))"

definition mpn_sub_1 :: "nat \<Rightarrow> nat \<Rightarrow> nat \<Rightarrow> nat \<Rightarrow> nat \<times> nat" where
  "mpn_sub_1 w a n b =
     (let x = limbs_val w n a; y = limbs_val w 1 b
      in if y \<le> x then (x - y, 0) else (x + 2 ^ (w * n) - y, 1))"

definition mpn_mul_n :: "nat \<Rightarrow> nat \<Rightarrow> nat \<Rightarrow> nat \<Rightarrow> nat" where
  "mpn_mul_n w a b n = limbs_val w n a * limbs_val w n b"

definition mpn_sqr :: "nat \<Rightarrow> nat \<Rightarrow> nat \<Rightarrow> nat" where
  "mpn_sqr w a n = limbs_val w n a * limbs_val w n a"

definition mpn_rshift :: "nat \<Rightarrow> nat \<Rightarrow> nat \<Rightarrow> nat \<Rightarrow> nat" where
  "mpn_rshift w a n cnt = limbs_val w n a div 2 ^ cnt"

definition mpn_cnd_select :: "nat \<Rightarrow> bool \<Rightarrow> nat \<Rightarrow> nat \<Rightarrow> nat \<Rightarrow> nat" where
  "mpn_cnd_select w cnd a b n = (if cnd then limbs_val w n b else limbs_val w n a)"

definition mpn_cmp :: "nat \<Rightarrow> nat \<Rightarrow> nat \<Rightarrow> nat \<Rightarrow> int" where
  "mpn_cmp w a b n =
     (let x = limbs_val w n a; y = limbs_val w n b
      in if x < y then - 1 else if y < x then 1 else 0)"

definition mpn_tdiv_q :: "nat \<Rightarrow> nat \<Rightarrow> nat" where
  "mpn_tdiv_q a d = a div d"

fun le_val :: "byte list \<Rightarrow> nat" where
  "le_val [] = 0"
| "le_val (x # xs) = unat x + 256 * le_val xs"

definition be_val :: "byte list \<Rightarrow> nat" where
  "be_val xs = le_val (rev xs)"

definition bytes_val :: "int \<Rightarrow> byte list \<Rightarrow> nat" where
  "bytes_val endian xs = (if endian = 1 then be_val xs else le_val xs)"

definition mpn_import :: "nat \<Rightarrow> nat \<Rightarrow> byte list \<Rightarrow> nat \<Rightarrow> int \<Rightarrow> nat" where
  "mpn_import w rn raw len endian = limbs_val w rn (bytes_val endian (take len raw))"

definition le_bytes :: "nat \<Rightarrow> nat \<Rightarrow> byte list" where
  "le_bytes len a = map (\<lambda>i. of_nat ((a div 256 ^ i) mod 256)) [0..<len]"

definition mpn_export :: "nat \<Rightarrow> nat \<Rightarrow> nat \<Rightarrow> nat \<Rightarrow> int \<Rightarrow> byte list" where
  "mpn_export w len a an endian =
     (let bs = le_bytes len (limbs_val w an a) in if endian = 1 then rev bs else bs)"

definition mpn_invert_n :: "nat \<Rightarrow> nat \<Rightarrow> nat \<Rightarrow> nat \<Rightarrow> nat \<times> bool" where
  "mpn_invert_n w a n limbs =
     (let x = limbs_val w limbs a; m = limbs_val w limbs n
      in if x mod m \<noteq> 0 \<and> gcd x m = 1
         then (nat (fst (bezw x m) mod int m), True) else (0, False))"

section \<open>Scalar field\<close>

record scalar_field =
  numb_bits :: nat
  sc_endian :: int
  sc_size :: nat
  sc_bits :: nat
  sc_shift :: nat
  sc_n :: nat
  sc_nh :: nat
  sc_m :: nat
  sc_limbs :: nat
  sc_raw :: "byte list"

text \<open>\<^verbatim>\<open>MAX_REDUCE_LIMBS\<close> is \<open>(MAX_SCALAR_LIMBS + 1) * 4\<close> with 521-bit scalars.\<close>

definition MAX_REDUCE_LIMBS :: "nat \<Rightarrow> nat" where
  "MAX_REDUCE_LIMBS w = ((521 + w - 1) div w + 1) * 4"

definition scalar_field_set :: "nat \<Rightarrow> byte list \<Rightarrow> nat \<Rightarrow> int \<Rightarrow> scalar_field" where
  "scalar_field_set w modulus bits endian =
     (let limbs = (bits + w - 1) div w;
          len = (bits + 7) div 8;
          shift = (limbs + 1) * 2;
          n = limbs_val w (MAX_REDUCE_LIMBS w) (be_val (take len modulus));
          nh = mpn_rshift w n (MAX_REDUCE_LIMBS w) 1;
          m = mpn_tdiv_q (2 ^ (w * shift)) (limbs_val w limbs n);
          raw = mpn_export w len n (MAX_REDUCE_LIMBS w) endian
      in \<lparr> numb_bits = w, sc_endian = endian, sc_size = len, sc_bits = bits,
           sc_shift = shift, sc_n = n, sc_nh = nh, sc_m = m, sc_limbs = limbs,
           sc_raw = raw \<rparr>)"

definition sc_import :: "scalar_field \<Rightarrow> byte list \<Rightarrow> nat \<times> bool" where
  "sc_import sc raw =
     (mpn_import (numb_bits sc) (sc_limbs sc) raw (sc_size sc) (sc_endian sc),
      bytes_lt raw (sc_raw sc) (sc_size sc) (sc_endian sc) \<noteq> 0)"

definition sc_import_weak :: "scalar_field \<Rightarrow> byte list \<Rightarrow> nat \<times> bool" where
  "sc_import_weak sc raw =
     (let w = numb_bits sc; nn = sc_limbs sc;
          r = mpn_import w nn raw (sc_size sc) (sc_endian sc);
          (sp, cy) = mpn_sub_n w r (sc_n sc) nn
      in (mpn_cnd_select w (cy = 0) r sp nn, cy \<noteq> 0))"

definition sc_reduce :: "scalar_field \<Rightarrow> nat \<Rightarrow> nat option" where
  "sc_reduce sc ap =
     (let w = numb_bits sc; sh = sc_shift sc;
          qp = mpn_mul_n w ap (sc_m sc) sh;
          hp = qp div 2 ^ (w * sh);
          up = mpn_mul_n w hp (sc_n sc) sh;
          (up, cy) = mpn_sub_n w ap up (sh * 2)
      in if cy \<noteq> 0 then None
         else (let (qp, cy) = mpn_sub_n w up (sc_n sc) sh
               in Some (mpn_cnd_select w (cy = 0) up qp (sc_limbs sc))))"

definition sc_import_strong :: "scalar_field \<Rightarrow> byte list \<Rightarrow> (nat \<times> bool) option" where
  "sc_import_strong sc raw =
     (let rp = mpn_import (numb_bits sc) (sc_shift sc * 2) raw (sc_size sc) (sc_endian sc)
      in case sc_reduce sc rp of
           None \<Rightarrow> None
         | Some r \<Rightarrow> Some (r, bytes_lt raw (sc_raw sc) (sc_size sc) (sc_endian sc) \<noteq> 0))"

definition sc_import_reduce :: "scalar_field \<Rightarrow> byte list \<Rightarrow> (nat \<times> bool) option" where
  "sc_import_reduce sc raw =
     (if sc_bits sc mod 8 = 0 then Some (sc_import_weak sc raw)
      else sc_import_strong sc raw)"

definition sc_export :: "scalar_field \<Rightarrow> nat \<Rightarrow> byte list" where
  "sc_export sc a = mpn_export (numb_bits sc) (sc_size sc) a (sc_limbs sc) (sc_endian sc)"

definition sc_select :: "scalar_field \<Rightarrow> nat \<Rightarrow> nat \<Rightarrow> bool \<Rightarrow> nat" where
  "sc_select sc a b flag = mpn_cnd_select (numb_bits sc) flag a b (sc_limbs sc)"

definition sc_set_word :: "scalar_field \<Rightarrow> nat \<Rightarrow> nat" where
  "sc_set_word sc word = limbs_val (numb_bits sc) 1 word"

definition sc_equal :: "scalar_field \<Rightarrow> nat \<Rightarrow> nat \<Rightarrow> bool" where
  "sc_equal sc a b =
     (limbs_val (numb_bits sc) (sc_limbs sc) a = limbs_val (numb_bits sc) (sc_limbs sc) b)"

definition sc_cmp_var :: "scalar_field \<Rightarrow> nat \<Rightarrow> nat \<Rightarrow> int" where
  "sc_cmp_var sc a b = mpn_cmp (numb_bits sc) a b (sc_limbs sc)"

definition sc_is_zero :: "scalar_field \<Rightarrow> nat \<Rightarrow> bool" where
  "sc_is_zero sc a = (limbs_val (numb_bits sc) (sc_limbs sc) a = 0)"

definition sc_is_high :: "scalar_field \<Rightarrow> nat \<Rightarrow> bool" where
  "sc_is_high sc a =
     (let (tmp, cy) = mpn_sub_n (numb_bits sc) a (sc_nh sc) (sc_limbs sc)
      in cy = 0 \<and> \<not> sc_equal sc a (sc_nh sc))"

definition sc_is_high_var :: "scalar_field \<Rightarrow> nat \<Rightarrow> bool" where
  "sc_is_high_var sc a = (sc_cmp_var sc a (sc_nh sc) > 0)"

definition sc_neg :: "scalar_field \<Rightarrow> nat \<Rightarrow> nat" where
  "sc_neg sc a =
     (let zero = sc_is_zero sc a;
          (r, cy) = mpn_sub_n (numb_bits sc) (sc_n sc) a (sc_limbs sc)
      in if zero then 0 else r)"

definition sc_neg_cond :: "scalar_field \<Rightarrow> nat \<Rightarrow> bool \<Rightarrow> nat" where
  "sc_neg_cond sc a flag = sc_select sc a (sc_neg sc a) flag"

definition sc_add :: "scalar_field \<Rightarrow> nat \<Rightarrow> nat \<Rightarrow> nat option" where
  "sc_add sc ap bp =
     (let w = numb_bits sc; nn = sc_limbs sc + 1
      in if limb_at w (sc_n sc) (nn - 1) \<noteq> 0 then None
         else (let up = limbs_val w (sc_limbs sc) ap;
                   vp = limbs_val w (sc_limbs sc) bp;
                   (up, c) = mpn_add_n w up vp nn;
                   (vp, cy) = mpn_sub_n w up (sc_n sc) nn
               in Some (mpn_cnd_select w (cy = 0) up vp (sc_limbs sc))))"

definition sc_sub :: "scalar_field \<Rightarrow> nat \<Rightarrow> nat \<Rightarrow> nat option" where
  "sc_sub sc a b = sc_add sc a (sc_neg sc b)"

definition sc_mul :: "scalar_field \<Rightarrow> nat \<Rightarrow> nat \<Rightarrow> nat option" where
  "sc_mul sc a b = sc_reduce sc (mpn_mul_n (numb_bits sc) a b (sc_limbs sc))"

definition sc_sqr :: "scalar_field \<Rightarrow> nat \<Rightarrow> nat option" where
  "sc_sqr sc a = sc_reduce sc (mpn_sqr (numb_bits sc) a (sc_limbs sc))"

text \<open>
  \<^verbatim>\<open>sc_mulshift\<close>.  The scratch array holds \<open>2 * limbs + 1\<close> initialised limbs (the
  product and one zero limb).  The signed size \<open>rn\<close> is a natural number here: the
  assertion \<^verbatim>\<open>rn > 0\<close> after \<^verbatim>\<open>rn -= limbs\<close> is the test \<open>limbs < rn\<close> before the
  subtraction, and \<open>rn\<close> stays positive afterwards.  Reading the rounding bit above
  the initialised limbs has no defined result, so that branch is \<open>None\<close> as well.
\<close>

definition sc_mulshift :: "scalar_field \<Rightarrow> nat \<Rightarrow> nat \<Rightarrow> nat \<Rightarrow> nat option" where
  "sc_mulshift sc a b shift =
     (let w = numb_bits sc; nn = sc_limbs sc;
          rn = sc_limbs sc * 2;
          i = shift - 1;
          limbs = shift div w;
          left = shift mod w
      in if \<not> sc_bits sc < shift then None
         else (let rp = mpn_mul_n w a b nn
               in if rn < i div w then None
                  else (let bit = limb_at w rp (i div w) div 2 ^ (i mod w);
                            rp = rp div 2 ^ (w * limbs)
                        in if \<not> limbs < rn then None
                           else (let rn = rn - limbs;
                                     (rp, rn) =
                                       (if left \<noteq> 0
                                        then (let rp' = mpn_rshift w rp rn left
                                              in (rp', rn - (if limb_at w rp' (rn - 1) = 0 then 1 else 0)))
                                        else (rp, rn));
                                     rn = rn + 1;
                                     (rp, c) = mpn_add_1 w rp rn (bit mod 2);
                                     rn = rn - (if limb_at w rp (rn - 1) = 0 then 1 else 0)
                                 in if \<not> rn \<le> nn then None
                                    else Some (limbs_val w rn rp)))))"

definition sc_invert_var :: "scalar_field \<Rightarrow> nat \<Rightarrow> nat \<times> bool" where
  "sc_invert_var sc a = mpn_invert_n (numb_bits sc) a (sc_n sc) (sc_limbs sc)"

text \<open>The loop of \<^verbatim>\<open>sc_pow\<close>, from bit \<open>i - 1\<close> down to bit 0.\<close>

fun sc_pow_loop :: "scalar_field \<Rightarrow> nat \<Rightarrow> nat \<Rightarrow> nat \<Rightarrow> nat \<Rightarrow> nat option" where
  "sc_pow_loop sc a e 0 b = Some b"
| "sc_pow_loop sc a e (Suc i) b =
     (let bit = limb_at (numb_bits sc) e (i div numb_bits sc) div 2 ^ (i mod numb_bits sc)
      in case sc_sqr sc b of
           None \<Rightarrow> None
         | Some b1 \<Rightarrow>
             (if bit mod 2 = 1
              then (case sc_mul sc b1 a of None \<Rightarrow> None | Some b2 \<Rightarrow> sc_pow_loop sc a e i b2)
              else sc_pow_loop sc a e i b1))"

definition sc_pow :: "scalar_field \<Rightarrow> nat \<Rightarrow> nat \<Rightarrow> nat option" where
  "sc_pow sc a e = sc_pow_loop sc a e (sc_bits sc) (sc_set_word sc 1)"

definition sc_invert :: "scalar_field \<Rightarrow> nat \<Rightarrow> (nat \<times> bool) option" where
  "sc_invert sc a =
     (let ret = \<not> sc_is_zero sc a;
          e = fst (mpn_sub_1 (numb_bits sc) (sc_n sc) (sc_limbs sc) 2)
      in case sc_pow sc a e of None \<Rightarrow> None | Some r \<Rightarrow> Some (r, ret))"

definition sc_get_bit :: "scalar_field \<Rightarrow> nat \<Rightarrow> nat \<Rightarrow> nat" where
  "sc_get_bit sc k i =
     (limb_at (numb_bits sc) k (i div numb_bits sc) div 2 ^ (i mod numb_bits sc)) mod 2"

definition sc_minimize :: "scalar_field \<Rightarrow> nat \<Rightarrow> nat \<times> bool" where
  "sc_minimize sc a = (let high = sc_is_high sc a in (sc_neg_cond sc a high, high))"

text \<open>
  The relations that \<^verbatim>\<open>scalar_field_set\<close> establishes for a modulus of exactly
  \<open>bits\<close> bits, as every scalar field and prime field definition of the file is.
\<close>

definition sc_ok :: "scalar_field \<Rightarrow> bool" where
  "sc_ok sc =
     (8 \<le> numb_bits sc \<and> 0 < sc_bits sc
      \<and> sc_limbs sc = (sc_bits sc + numb_bits sc - 1) div numb_bits sc
      \<and> sc_size sc = (sc_bits sc + 7) div 8
      \<and> sc_shift sc = (sc_limbs sc + 1) * 2
      \<and> 1 < sc_n sc \<and> sc_n sc < 2 ^ sc_bits sc \<and> 2 ^ (sc_bits sc - 1) \<le> sc_n sc
      \<and> sc_nh sc = sc_n sc div 2
      \<and> sc_m sc = 2 ^ (numb_bits sc * sc_shift sc) div sc_n sc
      \<and> (sc_endian sc = 1 \<or> sc_endian sc = - 1)
      \<and> sc_raw sc = mpn_export (numb_bits sc) (sc_size sc) (sc_n sc) (sc_limbs sc) (sc_endian sc))"

text \<open>A result that stands for a fully reduced scalar: the call returned, below \<open>n\<close>.\<close>

definition returns_reduced :: "scalar_field \<Rightarrow> nat option \<Rightarrow> bool" where
  "returns_reduced sc res = (case res of None \<Rightarrow> False | Some r \<Rightarrow> r < sc_n sc)"

text \<open>
  The scalar field of secp256k1 (\<^verbatim>\<open>field_q256k1\<close>), as \<^verbatim>\<open>wei_init\<close> builds it with
  \<^verbatim>\<open>scalar_field_init(sc, def->sc, 1)\<close>, for 64-bit limbs.
\<close>

definition field_q256k1_n :: "byte list" where
  "field_q256k1_n =
     [0xff, 0xff, 0xff, 0xff, 0xff, 0xff, 0xff, 0xff,
      0xff, 0xff, 0xff, 0xff, 0xff, 0xff, 0xff, 0xfe,
      0xba, 0xae, 0xdc, 0xe6, 0xaf, 0x48, 0xa0, 0x3b,
      0xbf, 0xd2, 0x5e, 0x8c, 0xd0, 0x36, 0x41, 0x41]"

definition q256k1 :: scalar_field where
  "q256k1 = scalar_field_set 64 field_q256k1_n 256 1"

section \<open>Prime field\<close>

text \<open>
  Modelled from the spec: the per-curve field backends of \<^verbatim>\<open>fields/*.h\<close> (\<^verbatim>\<open>add\<close>,
  \<^verbatim>\<open>sub\<close>, \<^verbatim>\<open>opp\<close>, \<^verbatim>\<open>mul\<close>, \<^verbatim>\<open>square\<close>, \<^verbatim>\<open>from_montgomery\<close>, \<^verbatim>\<open>nonzero\<close>, \<^verbatim>\<open>selectznz\<close>,
  \<^verbatim>\<open>to_bytes\<close>, \<^verbatim>\<open>from_bytes\<close>, \<^verbatim>\<open>carry\<close>) are missing from the sources; the spec
  (sections 1 and 3) treats them as external collaborators that compute in the prime
  field and whose representation the engine never inspects.  A field element
  (\<^verbatim>\<open>fe_t\<close>) of the model is the canonical residue in \<open>[0, p)\<close> that the backend's words
  denote, so \<^verbatim>\<open>carry\<close> and \<^verbatim>\<open>from_montgomery\<close> are the identity on it, and a Montgomery
  word array \<open>r\<close> denotes the residue \<open>v\<close> with \<open>v * 2 ^ shift = r (mod p)\<close>.  The optional
  routines \<^verbatim>\<open>invert\<close>, \<^verbatim>\<open>sqrt\<close>, \<^verbatim>\<open>isqrt\<close> and \<^verbatim>\<open>scmul_121666\<close> are function-valued
  fields, \<open>None\<close> for a \<^verbatim>\<open>NULL\<close> pointer; \<^verbatim>\<open>FIELD_WORD_SIZE\<close> is a field as well.
\<close>

type_synonym fe = int

record prime_field =
  field_word_size :: nat
  fe_endian :: int
  fe_size :: nat
  fe_bits :: nat
  fe_shift :: nat
  fe_words :: nat
  fe_adj_size :: nat
  fe_p :: nat
  fe_limbs :: nat
  fe_adj_limbs :: nat
  fe_mask :: byte
  fe_raw :: "byte list"
  fe_sc :: scalar_field
  has_from_montgomery :: bool
  has_nonzero :: bool
  has_carry :: bool
  invert_fn :: "(fe \<Rightarrow> fe) option"
  sqrt_fn :: "(fe \<Rightarrow> fe \<times> bool) option"
  isqrt_fn :: "(fe \<Rightarrow> fe \<Rightarrow> fe \<times> bool) option"
  scmul_121666_fn :: "(fe \<Rightarrow> fe) option"
  c_zero :: fe
  c_one :: fe
  c_two :: fe
  c_three :: fe
  c_four :: fe
  c_mone :: fe

definition fe_P :: "prime_field \<Rightarrow> int" where
  "fe_P fe = int (fe_p fe)"

definition backend_add :: "prime_field \<Rightarrow> fe \<Rightarrow> fe \<Rightarrow> fe" where
  "backend_add fe a b = (a + b) mod fe_P fe"

definition backend_sub :: "prime_field \<Rightarrow> fe \<Rightarrow> fe \<Rightarrow> fe" where
  "backend_sub fe a b = (a - b) mod fe_P fe"

definition backend_opp :: "prime_field \<Rightarrow> fe \<Rightarrow> fe" where
  "backend_opp fe a = (- a) mod fe_P fe"

definition backend_mul :: "prime_field \<Rightarrow> fe \<Rightarrow> fe \<Rightarrow> fe" where
  "backend_mul fe a b = (a * b) mod fe_P fe"

definition backend_square :: "prime_field \<Rightarrow> fe \<Rightarrow> fe" where
  "backend_square fe a = (a * a) mod fe_P fe"

definition backend_carry :: "prime_field \<Rightarrow> fe \<Rightarrow> fe" where
  "backend_carry fe a = a"

definition backend_from_montgomery :: "prime_field \<Rightarrow> fe \<Rightarrow> fe" where
  "backend_from_montgomery fe a = a"

definition backend_nonzero :: "prime_field \<Rightarrow> fe \<Rightarrow> nat" where
  "backend_nonzero fe a = nat (a mod fe_P fe)"

definition backend_selectznz :: "bool \<Rightarrow> fe \<Rightarrow> fe \<Rightarrow> fe" where
  "backend_selectznz c a b = (if c then b else a)"

definition backend_to_bytes :: "prime_field \<Rightarrow> fe \<Rightarrow> byte list" where
  "backend_to_bytes fe a = le_bytes (fe_size fe) (nat (a mod fe_P fe))"

definition backend_from_bytes :: "prime_field \<Rightarrow> byte list \<Rightarrow> fe" where
  "backend_from_bytes fe raw = int (le_val (take (fe_size fe) raw)) mod fe_P fe"

text \<open>The residue that a Montgomery word array denotes (\<^verbatim>\<open>memcpy\<close> of the limbs).\<close>

definition backend_of_montgomery_limbs :: "prime_field \<Rightarrow> nat \<Rightarrow> fe" where
  "backend_of_montgomery_limbs fe r =
     (int r * fst (bezw (2 ^ fe_shift fe mod fe_p fe) (fe_p fe))) mod fe_P fe"

definition mpn_lshift :: "nat \<Rightarrow> nat \<Rightarrow> nat \<Rightarrow> nat \<Rightarrow> nat \<times> nat" where
  "mpn_lshift w a n cnt =
     (let s = limbs_val w n a * 2 ^ cnt in (s mod 2 ^ (w * n), s div 2 ^ (w * n)))"

definition fe_zero :: "prime_field \<Rightarrow> fe" where
  "fe_zero fe = 0"

definition fe_import :: "prime_field \<Rightarrow> byte list \<Rightarrow> (fe \<times> bool) option" where
  "fe_import fe raw =
     (let w = numb_bits (fe_sc fe);
          ret = (bytes_lt raw (fe_raw fe) (fe_size fe) (fe_endian fe) \<noteq> 0)
      in if has_from_montgomery fe
         then (let shift = fe_shift fe div w;
                   left = fe_shift fe mod w;
                   xn = fe_limbs fe + shift + (if left \<noteq> 0 then 1 else 0)
               in if \<not> xn \<le> sc_shift (fe_sc fe) then None
                  else (let xp = mpn_import w (fe_limbs fe) raw (fe_size fe) (fe_endian fe)
                                   * 2 ^ (w * shift);
                            (xp, cy) = (if left \<noteq> 0 then mpn_lshift w xp xn left else (xp, 0))
                        in if cy \<noteq> 0 then None
                           else (case sc_reduce (fe_sc fe) xp of
                                   None \<Rightarrow> None
                                 | Some xp \<Rightarrow>
                                     (if w = field_word_size fe \<and> fe_limbs fe \<noteq> fe_words fe
                                      then None
                                      else Some (backend_of_montgomery_limbs fe
                                                   (limbs_val w (fe_limbs fe) xp), ret)))))
         else (if fe_endian fe = 1
               then Some (backend_from_bytes fe (rev (take (fe_size fe) raw)), ret)
               else Some (backend_from_bytes fe raw, ret)))"

definition fe_import_uniform :: "prime_field \<Rightarrow> byte list \<Rightarrow> (fe \<times> bool) option" where
  "fe_import_uniform fe raw =
     (let res =
        (if fe_mask fe \<noteq> 0xff
         then (let tmp = take (fe_size fe) raw;
                   tmp = (if fe_endian fe = - 1
                          then tmp[fe_size fe - 1 := (tmp ! (fe_size fe - 1)) AND fe_mask fe]
                          else tmp[0 := (tmp ! 0) AND fe_mask fe])
               in fe_import fe tmp)
         else fe_import fe raw)
      in case res of
           None \<Rightarrow> None
         | Some (r, ret) \<Rightarrow> Some (if has_carry fe then backend_carry fe r else r, ret))"

definition fe_export :: "prime_field \<Rightarrow> fe \<Rightarrow> byte list option" where
  "fe_export fe a =
     (let raw =
        (if has_from_montgomery fe
         then (let tmp = backend_from_montgomery fe a
               in if fe_size fe \<noteq> fe_words fe * (field_word_size fe div 8)
                  then (if fe_bits fe = 224 \<and> field_word_size fe = 64
                        then Some (take (fe_size fe) (backend_to_bytes fe tmp)) else None)
                  else Some (backend_to_bytes fe tmp))
         else Some (backend_to_bytes fe a))
      in case raw of
           None \<Rightarrow> None
         | Some raw \<Rightarrow> Some (if fe_endian fe = 1 then rev raw else raw))"

definition fe_swap :: "prime_field \<Rightarrow> fe \<Rightarrow> fe \<Rightarrow> bool \<Rightarrow> fe \<times> fe" where
  "fe_swap fe a b flag = (if flag then (b, a) else (a, b))"

definition fe_select :: "prime_field \<Rightarrow> fe \<Rightarrow> fe \<Rightarrow> bool \<Rightarrow> fe" where
  "fe_select fe a b flag = backend_selectznz flag a b"

definition fe_set_limbs :: "prime_field \<Rightarrow> nat \<Rightarrow> nat \<Rightarrow> (fe \<times> bool) option" where
  "fe_set_limbs fe p n =
     (if \<not> n \<le> fe_limbs fe then None
      else fe_import fe (mpn_export (numb_bits (fe_sc fe)) (fe_size fe) p n (fe_endian fe)))"

definition fe_get_limbs :: "prime_field \<Rightarrow> fe \<Rightarrow> nat option" where
  "fe_get_limbs fe a =
     (case fe_export fe a of
        None \<Rightarrow> None
      | Some tmp \<Rightarrow>
          Some (mpn_import (numb_bits (fe_sc fe)) (fe_limbs fe) tmp (fe_size fe) (fe_endian fe)))"

definition fe_set_sc :: "prime_field \<Rightarrow> scalar_field \<Rightarrow> nat \<Rightarrow> (fe \<times> bool) option" where
  "fe_set_sc fe sc a = fe_import fe (sc_export sc a)"

definition fe_is_zero :: "prime_field \<Rightarrow> fe \<Rightarrow> bool" where
  "fe_is_zero fe a =
     (let z = (if has_nonzero fe then backend_nonzero fe a
               else foldl (\<lambda>z b. z OR unat b) 0 (backend_to_bytes fe a))
      in z = 0)"

definition fe_equal :: "prime_field \<Rightarrow> fe \<Rightarrow> fe \<Rightarrow> bool" where
  "fe_equal fe a b =
     (let c = backend_sub fe a b;
          c = (if has_carry fe then backend_carry fe c else c)
      in fe_is_zero fe c)"

definition fe_is_odd :: "prime_field \<Rightarrow> fe \<Rightarrow> bool" where
  "fe_is_odd fe a =
     (if has_from_montgomery fe then backend_from_montgomery fe a mod fe_P fe mod 2 = 1
      else unat (backend_to_bytes fe a ! 0) mod 2 = 1)"

definition fe_neg :: "prime_field \<Rightarrow> fe \<Rightarrow> fe" where
  "fe_neg fe a =
     (let r = backend_opp fe a in if has_carry fe then backend_carry fe r else r)"

definition fe_neg_cond :: "prime_field \<Rightarrow> fe \<Rightarrow> bool \<Rightarrow> fe" where
  "fe_neg_cond fe a flag = fe_select fe a (fe_neg fe a) flag"

definition fe_set_odd :: "prime_field \<Rightarrow> fe \<Rightarrow> bool \<Rightarrow> fe" where
  "fe_set_odd fe a sign = fe_neg_cond fe a (fe_is_odd fe a \<noteq> sign)"

definition fe_add :: "prime_field \<Rightarrow> fe \<Rightarrow> fe \<Rightarrow> fe" where
  "fe_add fe a b =
     (let r = backend_add fe a b in if has_carry fe then backend_carry fe r else r)"

definition fe_sub :: "prime_field \<Rightarrow> fe \<Rightarrow> fe \<Rightarrow> fe" where
  "fe_sub fe a b =
     (let r = backend_sub fe a b in if has_carry fe then backend_carry fe r else r)"

definition fe_mul :: "prime_field \<Rightarrow> fe \<Rightarrow> fe \<Rightarrow> fe" where
  "fe_mul fe a b = backend_mul fe a b"

definition fe_sqr :: "prime_field \<Rightarrow> fe \<Rightarrow> fe" where
  "fe_sqr fe a = backend_square fe a"

definition fe_mul121666 :: "prime_field \<Rightarrow> fe \<Rightarrow> fe option" where
  "fe_mul121666 fe a = (case scmul_121666_fn fe of None \<Rightarrow> None | Some f \<Rightarrow> Some (f a))"

text \<open>The loop of \<^verbatim>\<open>fe_pow\<close>, from bit \<open>i - 1\<close> of the exponent down to bit 0.\<close>

fun fe_pow_loop :: "prime_field \<Rightarrow> fe \<Rightarrow> nat \<Rightarrow> nat \<Rightarrow> fe \<Rightarrow> fe" where
  "fe_pow_loop fe a e 0 b = b"
| "fe_pow_loop fe a e (Suc i) b =
     (let w = numb_bits (fe_sc fe);
          bit = limb_at w e (i div w) div 2 ^ (i mod w);
          b = fe_sqr fe b;
          b = (if bit mod 2 = 1 then fe_mul fe b a else b)
      in fe_pow_loop fe a e i b)"

definition fe_pow :: "prime_field \<Rightarrow> fe \<Rightarrow> nat \<Rightarrow> fe" where
  "fe_pow fe a e = fe_pow_loop fe a e (fe_bits fe) (c_one fe)"

definition fe_invert_var :: "prime_field \<Rightarrow> fe \<Rightarrow> (fe \<times> bool) option" where
  "fe_invert_var fe a =
     (case fe_get_limbs fe a of
        None \<Rightarrow> None
      | Some rp \<Rightarrow>
          (let (rp, ret) = mpn_invert_n (numb_bits (fe_sc fe)) rp (fe_p fe) (fe_limbs fe)
           in case fe_set_limbs fe rp (fe_limbs fe) of
                None \<Rightarrow> None
              | Some (r, ok) \<Rightarrow> if ok then Some (r, ret) else None))"

definition fe_invert :: "prime_field \<Rightarrow> fe \<Rightarrow> fe \<times> bool" where
  "fe_invert fe a =
     (let ret = \<not> fe_is_zero fe a
      in case invert_fn fe of
           Some f \<Rightarrow> (f a, ret)
         | None \<Rightarrow>
             (let w = numb_bits (fe_sc fe);
                  e = fst (mpn_sub_1 w (fe_p fe) (fe_limbs fe) 2)
              in (fe_pow fe a e, ret)))"

definition fe_sqrt :: "prime_field \<Rightarrow> fe \<Rightarrow> (fe \<times> bool) option" where
  "fe_sqrt fe a =
     (case sqrt_fn fe of
        Some f \<Rightarrow> Some (f a)
      | None \<Rightarrow>
          (let w = numb_bits (fe_sc fe); l = fe_limbs fe;
               b = (if limb_at w (fe_p fe) 0 mod 4 = 3
                    then (let e = limbs_val w (l + 1) (fe_p fe);
                              e = fst (mpn_add_1 w e (l + 1) 1);
                              e = mpn_rshift w e (l + 1) 2
                          in Some (fe_pow fe a e))
                    else if limb_at w (fe_p fe) 0 mod 8 = 5
                    then (let a2 = fe_add fe a a;
                              e = limbs_val w l (fe_p fe);
                              e = fst (mpn_sub_1 w e l 5);
                              e = mpn_rshift w e l 3;
                              c = fe_pow fe a2 e;
                              b = fe_sqr fe c;
                              b = fe_mul fe b a2;
                              b = fe_sub fe b (c_one fe);
                              b = fe_mul fe b a;
                              b = fe_mul fe b c
                          in Some b)
                    else None)
           in case b of
                None \<Rightarrow> None
              | Some b \<Rightarrow> Some (b, fe_equal fe (fe_sqr fe b) a)))"

definition fe_isqrt :: "prime_field \<Rightarrow> fe \<Rightarrow> fe \<Rightarrow> (fe \<times> bool) option" where
  "fe_isqrt fe u v =
     (case isqrt_fn fe of
        Some f \<Rightarrow> Some (f u v)
      | None \<Rightarrow>
          (let (z, ret1) = fe_invert fe v;
               z = fe_mul fe z u
           in case fe_sqrt fe z of
                None \<Rightarrow> None
              | Some (r, ret2) \<Rightarrow> Some (r, ret1 \<and> ret2)))"

text \<open>
  Primality of the field modulus, as a test a witness can evaluate.
\<close>

definition prime_nat :: "nat \<Rightarrow> bool" where
  "prime_nat p = (1 < p \<and> (\<forall>m\<in>{2..<p}. \<not> m dvd p))"

text \<open>
  The relations that \<^verbatim>\<open>prime_field_init\<close> establishes for an odd prime modulus of
  exactly \<open>bits\<close> bits on limbs of whole bytes, and the contracts of the optional
  backend routines.
\<close>

definition fe_elem :: "prime_field \<Rightarrow> fe \<Rightarrow> bool" where
  "fe_elem fe a = (0 \<le> a \<and> a < fe_P fe)"

definition fe_ok :: "prime_field \<Rightarrow> bool" where
  "fe_ok fe =
     (prime_nat (fe_p fe) \<and> 2 < fe_p fe
      \<and> sc_ok (fe_sc fe) \<and> 8 dvd numb_bits (fe_sc fe) \<and> sc_n (fe_sc fe) = fe_p fe
      \<and> sc_bits (fe_sc fe) = fe_bits fe \<and> sc_endian (fe_sc fe) = fe_endian fe
      \<and> fe_limbs fe = sc_limbs (fe_sc fe) \<and> fe_size fe = sc_size (fe_sc fe)
      \<and> fe_raw fe = sc_raw (fe_sc fe)
      \<and> fe_mask fe = (if fe_bits fe mod 8 = 0 then 0xff
                       else of_nat (2 ^ (8 - (fe_size fe * 8 - fe_bits fe)) - 1))
      \<and> fe_limbs fe + fe_shift fe div numb_bits (fe_sc fe)
            + (if fe_shift fe mod numb_bits (fe_sc fe) \<noteq> 0 then 1 else 0) \<le> sc_shift (fe_sc fe)
      \<and> (has_from_montgomery fe \<longrightarrow>
            (fe_size fe = fe_words fe * (field_word_size fe div 8)
             \<or> (fe_bits fe = 224 \<and> field_word_size fe = 64))
            \<and> (numb_bits (fe_sc fe) = field_word_size fe \<longrightarrow> fe_limbs fe = fe_words fe))
      \<and> c_zero fe = 0 \<and> c_one fe = 1 \<and> c_two fe = 2 mod fe_P fe
      \<and> c_three fe = 3 mod fe_P fe \<and> c_four fe = 4 mod fe_P fe \<and> c_mone fe = fe_P fe - 1
      \<and> (case invert_fn fe of None \<Rightarrow> True
          | Some f \<Rightarrow> \<forall>a. fe_elem fe a \<longrightarrow> fe_elem fe (f a) \<and> (a \<noteq> 0 \<longrightarrow> (a * f a) mod fe_P fe = 1))
      \<and> (case sqrt_fn fe of None \<Rightarrow> True
          | Some f \<Rightarrow> \<forall>a. fe_elem fe a \<longrightarrow> fe_elem fe (fst (f a))
                          \<and> (snd (f a) \<longleftrightarrow> (fst (f a) * fst (f a)) mod fe_P fe = a))
      \<and> (case isqrt_fn fe of None \<Rightarrow> True
          | Some f \<Rightarrow> \<forall>u v. fe_elem fe u \<and> fe_elem fe v \<longrightarrow> fe_elem fe (fst (f u v))
                          \<and> (snd (f u v) \<longrightarrow> (fst (f u v) * fst (f u v) * v) mod fe_P fe = u))
      \<and> (case scmul_121666_fn fe of None \<Rightarrow> True
          | Some f \<Rightarrow> \<forall>a. fe_elem fe a \<longrightarrow> f a = (121666 * a) mod fe_P fe))"

section \<open>Short Weierstrass curves\<close>

record wge =
  wge_x :: fe
  wge_y :: fe
  wge_inf :: bool

record jge =
  jge_x :: fe
  jge_y :: fe
  jge_z :: fe

text \<open>
  The curve context \<^verbatim>\<open>wei_t\<close>, without the hash identifier, the blinding pair and the
  fixed-base window table, which the embedded functions do not read.
\<close>

record wei =
  wei_fe :: prime_field
  wei_sc :: scalar_field
  wei_h :: nat
  wei_pmodn :: nat
  wei_red_n :: fe
  wei_a :: fe
  wei_b :: fe
  wei_zero_a :: bool
  wei_three_a :: bool
  wei_g :: wge
  wei_points :: "wge list"
  wei_endo :: bool
  wei_beta :: fe
  wei_lambda :: nat
  wei_b1 :: nat
  wei_b2 :: nat
  wei_g1 :: nat
  wei_g2 :: nat
  wei_endo_points :: "wge list"

definition jge_zero :: "wei \<Rightarrow> jge" where
  "jge_zero ec =
     \<lparr> jge_x = c_one (wei_fe ec), jge_y = c_one (wei_fe ec), jge_z = fe_zero (wei_fe ec) \<rparr>"

definition jge_is_zero :: "wei \<Rightarrow> jge \<Rightarrow> bool" where
  "jge_is_zero ec a = fe_is_zero (wei_fe ec) (jge_z a)"

definition jge_equal :: "wei \<Rightarrow> jge \<Rightarrow> jge \<Rightarrow> bool" where
  "jge_equal ec a b =
     (let fe = wei_fe ec;
          inf1 = jge_is_zero ec a;
          inf2 = jge_is_zero ec b;
          both = (inf1 \<and> inf2);
          ret = (inf1 = inf2);
          z1 = fe_sqr fe (jge_z a);
          z2 = fe_sqr fe (jge_z b);
          e1 = fe_mul fe (jge_x a) z2;
          e2 = fe_mul fe (jge_x b) z1;
          ret = (ret \<and> (fe_equal fe e1 e2 \<or> both));
          z1 = fe_mul fe z1 (jge_z a);
          z2 = fe_mul fe z2 (jge_z b);
          e1 = fe_mul fe (jge_y a) z2;
          e2 = fe_mul fe (jge_y b) z1;
          ret = (ret \<and> (fe_equal fe e1 e2 \<or> both))
      in ret)"

definition jge_neg :: "wei \<Rightarrow> jge \<Rightarrow> jge" where
  "jge_neg ec a =
     \<lparr> jge_x = jge_x a, jge_y = fe_neg (wei_fe ec) (jge_y a), jge_z = jge_z a \<rparr>"

definition jge_dblj :: "wei \<Rightarrow> jge \<Rightarrow> jge" where
  "jge_dblj ec p =
     (let fe = wei_fe ec;
          xx = fe_sqr fe (jge_x p);
          yy = fe_sqr fe (jge_y p);
          zz = fe_sqr fe (jge_z p);
          s = fe_mul fe (jge_x p) yy;
          s = fe_add fe s s;
          s = fe_add fe s s;
          m = fe_add fe xx xx;
          m = fe_add fe m xx;
          t = fe_sqr fe zz;
          t = fe_mul fe t (wei_a ec);
          m = fe_add fe m t;
          t = fe_sqr fe m;
          t = fe_sub fe t s;
          t = fe_sub fe t s;
          z3 = fe_mul fe (jge_z p) (jge_y p);
          z3 = fe_add fe z3 z3;
          x3 = t;
          xx = fe_sub fe s t;
          zz = fe_sqr fe yy;
          zz = fe_add fe zz zz;
          zz = fe_add fe zz zz;
          zz = fe_add fe zz zz;
          y3 = fe_mul fe m xx;
          y3 = fe_sub fe y3 zz
      in \<lparr> jge_x = x3, jge_y = y3, jge_z = z3 \<rparr>)"

definition jge_dbl0 :: "wei \<Rightarrow> jge \<Rightarrow> jge" where
  "jge_dbl0 ec p =
     (let fe = wei_fe ec;
          a = fe_sqr fe (jge_x p);
          b = fe_sqr fe (jge_y p);
          c = fe_sqr fe b;
          d = fe_add fe (jge_x p) b;
          d = fe_sqr fe d;
          d = fe_sub fe d a;
          d = fe_sub fe d c;
          d = fe_add fe d d;
          e = fe_add fe a a;
          e = fe_add fe e a;
          f = fe_sqr fe e;
          z3 = fe_mul fe (jge_z p) (jge_y p);
          z3 = fe_add fe z3 z3;
          x3 = fe_add fe d d;
          x3 = fe_sub fe f x3;
          c = fe_add fe c c;
          c = fe_add fe c c;
          c = fe_add fe c c;
          d = fe_sub fe d x3;
          y3 = fe_mul fe e d;
          y3 = fe_sub fe y3 c
      in \<lparr> jge_x = x3, jge_y = y3, jge_z = z3 \<rparr>)"

definition jge_dbl3 :: "wei \<Rightarrow> jge \<Rightarrow> jge" where
  "jge_dbl3 ec p =
     (let fe = wei_fe ec;
          delta = fe_sqr fe (jge_z p);
          gamma = fe_sqr fe (jge_y p);
          beta = fe_mul fe (jge_x p) gamma;
          t1 = fe_sub fe (jge_x p) delta;
          t2 = fe_add fe (jge_x p) delta;
          alpha = fe_add fe t1 t1;
          alpha = fe_add fe alpha t1;
          alpha = fe_mul fe alpha t2;
          z3 = fe_add fe (jge_y p) (jge_z p);
          z3 = fe_sqr fe z3;
          z3 = fe_sub fe z3 gamma;
          z3 = fe_sub fe z3 delta;
          t1 = fe_add fe beta beta;
          t1 = fe_add fe t1 t1;
          t2 = fe_add fe t1 t1;
          x3 = fe_sqr fe alpha;
          x3 = fe_sub fe x3 t2;
          y3 = fe_sub fe t1 x3;
          y3 = fe_mul fe y3 alpha;
          gamma = fe_sqr fe gamma;
          gamma = fe_add fe gamma gamma;
          gamma = fe_add fe gamma gamma;
          gamma = fe_add fe gamma gamma;
          y3 = fe_sub fe y3 gamma
      in \<lparr> jge_x = x3, jge_y = y3, jge_z = z3 \<rparr>)"

definition jge_dbl :: "wei \<Rightarrow> jge \<Rightarrow> jge" where
  "jge_dbl ec p =
     (let fe = wei_fe ec;
          inf = jge_is_zero ec p;
          inf = (if 1 < wei_h ec then inf \<or> fe_is_zero fe (jge_y p) else inf);
          r = (if wei_zero_a ec then jge_dbl0 ec p
               else if wei_three_a ec then jge_dbl3 ec p
               else jge_dblj ec p)
      in \<lparr> jge_x = fe_select fe (jge_x r) (c_one fe) inf,
           jge_y = fe_select fe (jge_y r) (c_one fe) inf,
           jge_z = fe_select fe (jge_z r) (c_zero fe) inf \<rparr>)"

text \<open>
  \<^verbatim>\<open>jge_add\<close>.  The C macros let \<open>ll\<close>, \<open>f\<close>, \<open>r0\<close>, \<open>g\<close>, \<open>x3\<close>, \<open>y3\<close> and \<open>z3\<close> reuse the storage
  of \<open>l\<close>, \<open>m\<close>, \<open>z1z1\<close>, \<open>z2z2\<close>, \<open>u2\<close>, \<open>s2\<close> and \<open>t\<close>; each of those is dead when it is
  overwritten, so the bindings below follow the data flow of the statements in order.
\<close>

definition jge_add :: "wei \<Rightarrow> jge \<Rightarrow> jge \<Rightarrow> jge" where
  "jge_add ec a b =
     (let fe = wei_fe ec;
          z1z1 = fe_sqr fe (jge_z a);
          z2z2 = fe_sqr fe (jge_z b);
          u1 = fe_mul fe (jge_x a) z2z2;
          u2 = fe_mul fe (jge_x b) z1z1;
          s1 = fe_mul fe (jge_y a) z2z2;
          s1 = fe_mul fe s1 (jge_z b);
          s2 = fe_mul fe (jge_y b) z1z1;
          s2 = fe_mul fe s2 (jge_z a);
          z = fe_mul fe (jge_z a) (jge_z b);
          t = fe_add fe u1 u2;
          m = fe_add fe s1 s2;
          r0 = fe_sqr fe t;
          l = fe_mul fe u1 u2;
          r0 = fe_sub fe r0 l;
          r0 = (if \<not> wei_zero_a ec
                then (let l = fe_sqr fe z;
                          l = fe_sqr fe l;
                          l = fe_mul fe l (wei_a ec)
                      in fe_add fe r0 l)
                else r0);
          degenerate = (fe_is_zero fe m \<and> fe_is_zero fe r0);
          l = fe_sub fe u1 u2;
          m = fe_select fe m l degenerate;
          l = fe_sub fe s1 s2;
          r0 = fe_select fe r0 l degenerate;
          l = fe_sqr fe m;
          g = fe_mul fe t l;
          ll = fe_sqr fe l;
          ll = fe_select fe ll (c_zero fe) degenerate;
          w = fe_sqr fe r0;
          f = fe_mul fe m z;
          h = fe_add fe g g;
          h = fe_add fe h g;
          h = fe_sub fe h w;
          h = fe_sub fe h w;
          x3 = fe_sub fe w g;
          x3 = fe_add fe x3 x3;
          x3 = fe_add fe x3 x3;
          y3 = fe_mul fe r0 h;
          y3 = fe_sub fe y3 ll;
          y3 = fe_add fe y3 y3;
          y3 = fe_add fe y3 y3;
          z3 = fe_add fe f f;
          inf1 = fe_is_zero fe (jge_z a);
          inf2 = fe_is_zero fe (jge_z b);
          inf3 = (fe_is_zero fe z3 \<and> \<not> (inf1 \<or> inf2));
          x3 = fe_select fe x3 (jge_x b) inf1;
          y3 = fe_select fe y3 (jge_y b) inf1;
          z3 = fe_select fe z3 (jge_z b) inf1;
          x3 = fe_select fe x3 (jge_x a) inf2;
          y3 = fe_select fe y3 (jge_y a) inf2;
          z3 = fe_select fe z3 (jge_z a) inf2;
          x3 = fe_select fe x3 (c_one fe) inf3;
          y3 = fe_select fe y3 (c_one fe) inf3;
          z3 = fe_select fe z3 (c_zero fe) inf3
      in \<lparr> jge_x = x3, jge_y = y3, jge_z = z3 \<rparr>)"

definition jge_validate :: "wei \<Rightarrow> jge \<Rightarrow> bool" where
  "jge_validate ec p =
     (let fe = wei_fe ec;
          lhs = fe_sqr fe (jge_y p);
          x3 = fe_sqr fe (jge_x p);
          x3 = fe_mul fe x3 (jge_x p);
          z2 = fe_sqr fe (jge_z p);
          z4 = fe_sqr fe z2;
          z6 = fe_mul fe z4 z2;
          rhs = fe_mul fe (wei_b ec) z6;
          rhs = fe_add fe rhs x3;
          x3 = fe_mul fe (wei_a ec) z4;
          x3 = fe_mul fe x3 (jge_x p);
          rhs = fe_add fe rhs x3
      in fe_equal fe lhs rhs \<or> jge_is_zero ec p)"

text \<open>
  \<^verbatim>\<open>jge_equal_r\<close> (compiled under \<^verbatim>\<open>ECC_WITH_TRICK\<close>).  Its \<^verbatim>\<open>for (;;)\<close> loop has no
  syntactic bound; the state is the candidate \<open>cp\<close> of \<open>cn\<close> limbs and the scaled
  field element \<open>rx\<close>.
\<close>

partial_function (option) jge_equal_r_loop ::
  "wei \<Rightarrow> jge \<Rightarrow> fe \<Rightarrow> nat \<Rightarrow> fe \<Rightarrow> bool option" where
  "jge_equal_r_loop ec p rn cp rx =
     (let fe = wei_fe ec; sc = wei_sc ec; w = numb_bits sc;
          cn = fe_limbs fe + 1;
          cp = fst (mpn_add_n w cp (sc_n sc) cn)
      in if 0 \<le> mpn_cmp w cp (fe_p fe) cn then Some False
         else (let rx = fe_add fe rx rn
               in if fe_equal fe (jge_x p) rx then Some True
                  else jge_equal_r_loop ec p rn cp rx))"

definition jge_equal_r :: "wei \<Rightarrow> jge \<Rightarrow> nat \<Rightarrow> bool option" where
  "jge_equal_r ec p x =
     (let fe = wei_fe ec; sc = wei_sc ec; w = numb_bits sc;
          cn = fe_limbs fe + 1
      in if \<not> sc_limbs sc \<le> fe_limbs fe then None
         else if jge_is_zero ec p then Some False
         else (let zz = fe_sqr fe (jge_z p)
               in case fe_set_sc fe sc x of
                    None \<Rightarrow> None
                  | Some (rx, ok) \<Rightarrow>
                      if \<not> ok then None
                      else (let rx = fe_mul fe rx zz
                            in if fe_equal fe (jge_x p) rx then Some True
                               else (let cp = limbs_val w (sc_limbs sc) x;
                                         rn = fe_mul fe (wei_red_n ec) zz
                                     in if limb_at w (sc_n sc) (cn - 1) \<noteq> 0 then None
                                        else if limb_at w (fe_p fe) (cn - 1) \<noteq> 0 then None
                                        else jge_equal_r_loop ec p rn cp rx))))"

definition jge_elem :: "wei \<Rightarrow> jge \<Rightarrow> bool" where
  "jge_elem ec p =
     (fe_elem (wei_fe ec) (jge_x p) \<and> fe_elem (wei_fe ec) (jge_y p) \<and> fe_elem (wei_fe ec) (jge_z p))"

text \<open>
  The relations that \<^verbatim>\<open>wei_init\<close> establishes on the six predefined curves: both
  fields are big-endian and of one byte size, \<open>n < p\<close> (the assumption the comments of
  \<^verbatim>\<open>ecdsa_recover\<close> name), \<open>red_n\<close> is \<open>n\<close> as a field element and \<open>pmodn\<close> is \<open>p mod n\<close>.
\<close>

definition wei_ok :: "wei \<Rightarrow> bool" where
  "wei_ok ec =
     (fe_ok (wei_fe ec) \<and> sc_ok (wei_sc ec)
      \<and> numb_bits (wei_sc ec) = numb_bits (fe_sc (wei_fe ec))
      \<and> fe_endian (wei_fe ec) = 1 \<and> sc_endian (wei_sc ec) = 1
      \<and> sc_size (wei_sc ec) = fe_size (wei_fe ec)
      \<and> sc_limbs (wei_sc ec) \<le> fe_limbs (wei_fe ec)
      \<and> sc_n (wei_sc ec) < fe_p (wei_fe ec)
      \<and> wei_red_n ec = int (sc_n (wei_sc ec))
      \<and> wei_pmodn ec = fe_p (wei_fe ec) mod sc_n (wei_sc ec)
      \<and> fe_elem (wei_fe ec) (wei_a ec) \<and> fe_elem (wei_fe ec) (wei_b ec)
      \<and> wei_zero_a ec = (wei_a ec = 0)
      \<and> wei_three_a ec = (wei_a ec = fe_P (wei_fe ec) - 3))"

section \<open>Montgomery curves\<close>

record mge =
  mge_x :: fe
  mge_y :: fe
  mge_inf :: bool

record pge =
  pge_x :: fe
  pge_z :: fe

text \<open>
  The curve context \<^verbatim>\<open>mont_t\<close>.  The clamping routine (\<^verbatim>\<open>p25519_clamp\<close>, \<^verbatim>\<open>p448_clamp\<close>)
  lives in the missing field headers; the context carries it as the function pointer
  \<^verbatim>\<open>clamp\<close> does.
\<close>

record mont =
  mont_fe :: prime_field
  mont_sc :: scalar_field
  mont_h :: nat
  mont_a :: fe
  mont_b :: fe
  mont_z :: fe
  mont_invert :: bool
  mont_c :: fe
  mont_bi :: fe
  mont_i4 :: fe
  mont_a24 :: fe
  mont_a0 :: fe
  mont_b0 :: fe
  mont_g :: mge
  mont_clamp_fn :: "byte list \<Rightarrow> byte list"

definition pge_zero :: "mont \<Rightarrow> pge" where
  "pge_zero ec = \<lparr> pge_x = c_one (mont_fe ec), pge_z = fe_zero (mont_fe ec) \<rparr>"

definition pge_import :: "mont \<Rightarrow> byte list \<Rightarrow> pge option" where
  "pge_import ec raw =
     (case fe_import_uniform (mont_fe ec) raw of
        None \<Rightarrow> None
      | Some (x, ret) \<Rightarrow> Some \<lparr> pge_x = x, pge_z = c_one (mont_fe ec) \<rparr>)"

definition pge_export :: "mont \<Rightarrow> pge \<Rightarrow> (bool \<times> byte list) option" where
  "pge_export ec p =
     (let fe = mont_fe ec;
          (x, ret) = fe_invert fe (pge_z p);
          x = fe_mul fe x (pge_x p)
      in case fe_export fe x of
           None \<Rightarrow> None
         | Some raw \<Rightarrow> Some (ret, raw))"

definition pge_swap :: "mont \<Rightarrow> pge \<Rightarrow> pge \<Rightarrow> bool \<Rightarrow> pge \<times> pge" where
  "pge_swap ec a b flag =
     (let (ax, bx) = fe_swap (mont_fe ec) (pge_x a) (pge_x b) flag;
          (az, bz) = fe_swap (mont_fe ec) (pge_z a) (pge_z b) flag
      in (\<lparr> pge_x = ax, pge_z = az \<rparr>, \<lparr> pge_x = bx, pge_z = bz \<rparr>))"

definition pge_is_zero :: "mont \<Rightarrow> pge \<Rightarrow> bool" where
  "pge_is_zero ec a = fe_is_zero (mont_fe ec) (pge_z a)"

definition mont_clamp :: "mont \<Rightarrow> byte list \<Rightarrow> byte list" where
  "mont_clamp ec inp = mont_clamp_fn ec (take (sc_size (mont_sc ec)) inp)"

definition mont_mul_a24 :: "mont \<Rightarrow> fe \<Rightarrow> fe" where
  "mont_mul_a24 ec a =
     (case scmul_121666_fn (mont_fe ec) of
        Some f \<Rightarrow> f a
      | None \<Rightarrow> fe_mul (mont_fe ec) a (mont_a24 ec))"

text \<open>
  \<^verbatim>\<open>pge_ladder(ec, p4, p5, p1, p2, p3)\<close> returns \<open>(p4, p5)\<close>.  \<^verbatim>\<open>mont_mul\<close> calls it with
  \<open>p4 = p2\<close> and \<open>p5 = p3\<close>; every read of \<open>p2\<close> and \<open>p3\<close> precedes the first write, and the
  two pointer assertions hold there because \<open>a\<close> and \<open>b\<close> are locals of \<^verbatim>\<open>mont_mul\<close>.
\<close>

definition pge_ladder :: "mont \<Rightarrow> pge \<Rightarrow> pge \<Rightarrow> pge \<Rightarrow> pge \<times> pge" where
  "pge_ladder ec p1 p2 p3 =
     (let fe = mont_fe ec;
          a = fe_add fe (pge_x p2) (pge_z p2);
          aa = fe_sqr fe a;
          b = fe_sub fe (pge_x p2) (pge_z p2);
          bb = fe_sqr fe b;
          e = fe_sub fe aa bb;
          c = fe_add fe (pge_x p3) (pge_z p3);
          d = fe_sub fe (pge_x p3) (pge_z p3);
          da = fe_mul fe d a;
          cb = fe_mul fe c b;
          x5 = fe_add fe da cb;
          x5 = fe_sqr fe x5;
          x5 = fe_mul fe x5 (pge_z p1);
          z5 = fe_sub fe da cb;
          z5 = fe_sqr fe z5;
          z5 = fe_mul fe z5 (pge_x p1);
          x4 = fe_mul fe aa bb;
          z4 = mont_mul_a24 ec e;
          z4 = fe_add fe z4 bb;
          z4 = fe_mul fe z4 e
      in (\<lparr> pge_x = x4, pge_z = z4 \<rparr>, \<lparr> pge_x = x5, pge_z = z5 \<rparr>))"

text \<open>
  One iteration of the ladder loop of \<^verbatim>\<open>mont_mul\<close> for bit index \<open>i\<close>; the state is
  \<open>(a, b, swap)\<close>.
\<close>

definition mont_mul_step :: "mont \<Rightarrow> pge \<Rightarrow> nat \<Rightarrow> pge \<times> pge \<times> nat \<Rightarrow> nat \<Rightarrow> pge \<times> pge \<times> nat" where
  "mont_mul_step ec p k st i =
     (let a = fst st; b = fst (snd st); swap = snd (snd st);
          bit = sc_get_bit (mont_sc ec) k i;
          (a, b) = pge_swap ec a b (swap XOR bit \<noteq> 0);
          (a, b) = pge_ladder ec p a b
      in (a, b, bit))"

fun mont_mul_loop :: "mont \<Rightarrow> pge \<Rightarrow> nat \<Rightarrow> nat \<Rightarrow> pge \<times> pge \<times> nat \<Rightarrow> pge \<times> pge \<times> nat" where
  "mont_mul_loop ec p k 0 st = st"
| "mont_mul_loop ec p k (Suc i) st = mont_mul_loop ec p k i (mont_mul_step ec p k st i)"

definition mont_mul :: "mont \<Rightarrow> pge \<Rightarrow> nat \<Rightarrow> pge option" where
  "mont_mul ec p k =
     (if \<not> fe_bits (mont_fe ec) \<le> sc_limbs (mont_sc ec) * numb_bits (mont_sc ec) then None
      else (let (a, b, swap) = mont_mul_loop ec p k (fe_bits (mont_fe ec)) (pge_zero ec, p, 0);
                (a, b) = pge_swap ec a b (swap \<noteq> 0)
            in Some a))"

definition ecdh_derive :: "mont \<Rightarrow> byte list \<Rightarrow> byte list \<Rightarrow> (bool \<times> byte list) option" where
  "ecdh_derive ec pub priv =
     (let clamped = mont_clamp ec priv;
          a = fst (sc_import (mont_sc ec) clamped)
      in case pge_import ec pub of
           None \<Rightarrow> None
         | Some A \<Rightarrow>
             (case mont_mul ec A a of
                None \<Rightarrow> None
              | Some P \<Rightarrow> pge_export ec P))"

definition mont_ok :: "mont \<Rightarrow> bool" where
  "mont_ok ec =
     (fe_ok (mont_fe ec) \<and> sc_ok (mont_sc ec)
      \<and> numb_bits (mont_sc ec) = numb_bits (fe_sc (mont_fe ec))
      \<and> fe_endian (mont_fe ec) = - 1 \<and> sc_endian (mont_sc ec) = - 1
      \<and> fe_bits (mont_fe ec) \<le> sc_limbs (mont_sc ec) * numb_bits (mont_sc ec)
      \<and> fe_elem (mont_fe ec) (mont_a24 ec))"

text \<open>A projective point whose two coordinates are canonical residues.\<close>

definition pge_elem :: "mont \<Rightarrow> pge \<Rightarrow> bool" where
  "pge_elem ec a = (fe_elem (mont_fe ec) (pge_x a) \<and> fe_elem (mont_fe ec) (pge_z a))"

section \<open>Twisted Edwards curves\<close>

record xge =
  xge_x :: fe
  xge_y :: fe
  xge_z :: fe
  xge_t :: fe

text \<open>
  The curve context \<^verbatim>\<open>edwards_t\<close>, without the hash identifiers, the prefix string
  and the precomputed tables, which the embedded functions do not read.
\<close>

record edwards =
  ed_fe :: prime_field
  ed_sc :: scalar_field
  ed_h :: nat
  ed_a :: fe
  ed_d :: fe
  ed_k :: fe
  ed_z :: fe
  ed_mone_a :: bool
  ed_one_a :: bool
  ed_g :: xge

definition xge_set_xy :: "edwards \<Rightarrow> fe \<Rightarrow> fe \<Rightarrow> xge" where
  "xge_set_xy ec x y =
     \<lparr> xge_x = x, xge_y = y, xge_z = c_one (ed_fe ec), xge_t = fe_mul (ed_fe ec) x y \<rparr>"

text \<open>
  \<^verbatim>\<open>xge_set_y\<close> returns the flag and the point it wrote.  The C parameter \<^verbatim>\<open>sign\<close> is
  \<open>-1\<close> (no sign wanted), 0 or 1.
\<close>

definition xge_set_y :: "edwards \<Rightarrow> fe \<Rightarrow> int \<Rightarrow> (bool \<times> xge) option" where
  "xge_set_y ec y sign =
     (let fe = ed_fe ec;
          y2 = fe_sqr fe y;
          lhs = fe_sub fe y2 (c_one fe);
          rhs = fe_mul fe (ed_d ec) y2;
          rhs = fe_sub fe rhs (ed_a ec)
      in case fe_isqrt fe lhs rhs of
           None \<Rightarrow> None
         | Some (x, ret) \<Rightarrow>
             (let x = (if sign \<noteq> - 1 then fe_set_odd fe x (sign \<noteq> 0) else x);
                  r = xge_set_xy ec x y;
                  ret = (if sign \<noteq> - 1
                         then ret \<and> \<not> (fe_is_zero fe x \<and> sign \<noteq> 0) else ret)
              in Some (ret, r)))"

text \<open>
  \<^verbatim>\<open>xge_import\<close>: \<open>Some None\<close> is the return value 0, \<open>Some (Some r)\<close> the return value 1
  with the decoded point.
\<close>

definition xge_import :: "edwards \<Rightarrow> byte list \<Rightarrow> xge option option" where
  "xge_import ec raw =
     (let fe = ed_fe ec
      in if fe_bits fe mod 8 = 0
         then (if (raw ! fe_size fe) AND 0x7f \<noteq> 0 then Some None
               else (case fe_import fe raw of
                       None \<Rightarrow> None
                     | Some (y, ok) \<Rightarrow>
                         if \<not> ok then Some None
                         else (let sign = drop_bit 7 (raw ! fe_size fe)
                               in case xge_set_y ec y (uint sign) of
                                    None \<Rightarrow> None
                                  | Some (ret, r) \<Rightarrow> Some (if ret then Some r else None))))
         else (let tmp = take (fe_size fe) raw;
                   tmp = tmp[fe_size fe - 1 := (tmp ! (fe_size fe - 1)) AND 0x7f]
               in case fe_import fe tmp of
                    None \<Rightarrow> None
                  | Some (y, ok) \<Rightarrow>
                      if \<not> ok then Some None
                      else (let sign = drop_bit 7 (raw ! (fe_size fe - 1))
                            in case xge_set_y ec y (uint sign) of
                                 None \<Rightarrow> None
                               | Some (ret, r) \<Rightarrow> Some (if ret then Some r else None))))"

text \<open>
  The relations that \<^verbatim>\<open>edwards_init\<close> establishes.  The last conjunct says that \<^verbatim>\<open>fe_isqrt\<close>
  has a routine to run: a backend \<^verbatim>\<open>isqrt\<close> or \<^verbatim>\<open>sqrt\<close>, or a modulus that is 3 modulo 4 or
  5 modulo 8 (otherwise \<^verbatim>\<open>fe_sqrt\<close> stops in \<^verbatim>\<open>assert(0)\<close>).
\<close>

definition ed_ok :: "edwards \<Rightarrow> bool" where
  "ed_ok ec =
     (fe_ok (ed_fe ec) \<and> fe_endian (ed_fe ec) = - 1
      \<and> fe_elem (ed_fe ec) (ed_a ec) \<and> fe_elem (ed_fe ec) (ed_d ec)
      \<and> (isqrt_fn (ed_fe ec) \<noteq> None \<or> sqrt_fn (ed_fe ec) \<noteq> None
          \<or> limb_at (numb_bits (fe_sc (ed_fe ec))) (fe_p (ed_fe ec)) 0 mod 4 = 3
          \<or> limb_at (numb_bits (fe_sc (ed_fe ec))) (fe_p (ed_fe ec)) 0 mod 8 = 5))"

section \<open>Small instances\<close>

text \<open>
  Contexts over the field of 13 elements, laid out the way \<^verbatim>\<open>prime_field_init\<close> and
  \<^verbatim>\<open>scalar_field_set\<close> lay out a 4-bit modulus on 64-bit limbs and 64-bit field words
  (\<open>size = 1\<close>, \<open>limbs = 1\<close>, \<open>shift = 64\<close>, \<open>mask = 0x0f\<close>).  They are small enough to
  evaluate every definition above on concrete inputs.  \<open>f13_le\<close> is a little-endian
  field without Montgomery form and without the optional routines (as \<^verbatim>\<open>field_p251\<close>),
  \<open>f13_be\<close> a big-endian field in Montgomery form (as \<^verbatim>\<open>field_p256k1\<close>).
\<close>

definition f13_le :: prime_field where
  "f13_le =
     \<lparr> field_word_size = 64, fe_endian = - 1, fe_size = 1, fe_bits = 4, fe_shift = 64,
       fe_words = 1, fe_adj_size = 1, fe_p = 13, fe_limbs = 1, fe_adj_limbs = 1,
       fe_mask = 0x0f, fe_raw = [0x0d], fe_sc = scalar_field_set 64 [0x0d] 4 (- 1),
       has_from_montgomery = False, has_nonzero = False, has_carry = True,
       invert_fn = None, sqrt_fn = None, isqrt_fn = None, scmul_121666_fn = None,
       c_zero = 0, c_one = 1, c_two = 2, c_three = 3, c_four = 4, c_mone = 12 \<rparr>"

definition f13_be :: prime_field where
  "f13_be =
     \<lparr> field_word_size = 64, fe_endian = 1, fe_size = 1, fe_bits = 4, fe_shift = 64,
       fe_words = 1, fe_adj_size = 1, fe_p = 13, fe_limbs = 1, fe_adj_limbs = 1,
       fe_mask = 0x0f, fe_raw = [0x0d], fe_sc = scalar_field_set 64 [0x0d] 4 1,
       has_from_montgomery = True, has_nonzero = True, has_carry = False,
       invert_fn = None, sqrt_fn = None, isqrt_fn = None, scmul_121666_fn = None,
       c_zero = 0, c_one = 1, c_two = 2, c_three = 3, c_four = 4, c_mone = 12 \<rparr>"

text \<open>
  The Montgomery curve \<open>y\<^sup>2 = x\<^sup>3 + 4 x\<^sup>2 + x\<close> over the field of 13 elements: 12 points,
  cofactor 4, a subgroup of order 3, \<open>a24 = (4 + 2) / 4 = 8\<close>.  Its clamping routine
  clears the two cofactor bits and sets bit 3.
\<close>

definition m13 :: mont where
  "m13 =
     \<lparr> mont_fe = f13_le, mont_sc = scalar_field_set 64 [0x03] 2 (- 1), mont_h = 4,
       mont_a = 4, mont_b = 1, mont_z = 2, mont_invert = False, mont_c = 1,
       mont_bi = 1, mont_i4 = 10, mont_a24 = 8, mont_a0 = 4, mont_b0 = 1,
       mont_g = \<lparr> mge_x = 3, mge_y = 1, mge_inf = False \<rparr>,
       mont_clamp_fn = (\<lambda>bs. bs[0 := ((bs ! 0) AND 0x0c) OR 0x08]) \<rparr>"

text \<open>
  The Edwards curve \<open>x\<^sup>2 + y\<^sup>2 = 1 + 7 x\<^sup>2 y\<^sup>2\<close> over the field of 13 elements: 20 points,
  cofactor 4, a subgroup of order 5 generated by \<open>(2, 9)\<close>.  The field has no backend
  square root, and \<open>13 = 5 (mod 8)\<close> selects the second branch of \<^verbatim>\<open>fe_sqrt\<close>.
\<close>

definition e13 :: edwards where
  "e13 =
     \<lparr> ed_fe = f13_le, ed_sc = scalar_field_set 64 [0x05] 3 (- 1), ed_h = 4,
       ed_a = 1, ed_d = 7, ed_k = 1, ed_z = 2, ed_mone_a = False, ed_one_a = True,
       ed_g = \<lparr> xge_x = 2, xge_y = 9, xge_z = 1, xge_t = 5 \<rparr> \<rparr>"

section \<open>Scalar field: proofs\<close>


lemma ceil_mult_ge: "0 < (w::nat) \<Longrightarrow> x \<le> w * ((x + w - 1) div w)"
proof -
  assume w: "0 < w"
  have "x + w - 1 = w * ((x + w - 1) div w) + (x + w - 1) mod w" by simp
  moreover have "(x + w - 1) mod w \<le> w - 1" using w
    by (metis Suc_pred' less_Suc_eq_le mod_less_divisor)
  ultimately show ?thesis using w by linarith
qed

lemma sc_ok_bits_le: "sc_ok sc \<Longrightarrow> sc_bits sc \<le> numb_bits sc * sc_limbs sc"
  using ceil_mult_ge [of "numb_bits sc" "sc_bits sc"] by (simp add: sc_ok_def)

lemma sc_ok_n_lt: "sc_ok sc \<Longrightarrow> sc_n sc < 2 ^ (numb_bits sc * sc_limbs sc)"
proof -
  assume ok: "sc_ok sc"
  have "sc_n sc < 2 ^ sc_bits sc" using ok by (simp add: sc_ok_def)
  also have "(2::nat) ^ sc_bits sc \<le> 2 ^ (numb_bits sc * sc_limbs sc)"
    using sc_ok_bits_le [OF ok] by (simp add: power_increasing)
  finally show ?thesis .
qed

lemma limbs_val_id: "a < 2 ^ (w * n) \<Longrightarrow> limbs_val w n a = a"
  by (simp add: limbs_val_def)

lemma limbs_val_lt: "limbs_val w n a < 2 ^ (w * n)"
  by (simp add: limbs_val_def)

lemma pow_limbs_mono: "0 < w \<Longrightarrow> 2 * (2::nat) ^ (w * n) \<le> 2 ^ (w * (n + 1))"
proof -
  assume w: "0 < w"
  have "2 * (2::nat) ^ (w * n) = 2 ^ (w * n + 1)" by simp
  also have "\<dots> \<le> 2 ^ (w * (n + 1))" using w by (intro power_increasing) auto
  finally show ?thesis .
qed

lemma mpn_add_n_small: "a + b < 2 ^ (w * n) \<Longrightarrow> mpn_add_n w a b n = (a + b, 0)"
  by (simp add: mpn_add_n_def limbs_val_def Let_def)

lemma mpn_sub_n_ge: "b \<le> a \<Longrightarrow> a < 2 ^ (w * n) \<Longrightarrow> mpn_sub_n w a b n = (a - b, 0)"
  by (simp add: mpn_sub_n_def limbs_val_def Let_def)

lemma mpn_sub_n_lt: "a < b \<Longrightarrow> b < 2 ^ (w * n) \<Longrightarrow> mpn_sub_n w a b n = (a + 2 ^ (w * n) - b, 1)"
  by (simp add: mpn_sub_n_def limbs_val_def Let_def)

lemma mpn_cnd_select_id:
  "a < 2 ^ (w * n) \<Longrightarrow> b < 2 ^ (w * n) \<Longrightarrow> mpn_cnd_select w c a b n = (if c then b else a)"
  by (simp add: mpn_cnd_select_def limbs_val_def)

lemma limb_at_zero: "a < 2 ^ (w * i) \<Longrightarrow> limb_at w a i = 0"
  by (simp add: limb_at_def)

lemma mod_sub_once: "n \<le> (x::nat) \<Longrightarrow> x < 2 * n \<Longrightarrow> x mod n = x - n"
proof -
  assume a: "n \<le> x" "x < 2 * n"
  then have "x - n < n" by linarith
  then have "(x - n) mod n = x - n" by simp
  moreover have "x mod n = (x - n) mod n" using a(1) by (simp add: le_mod_geq)
  ultimately show ?thesis by simp
qed

lemma cond_sub:
  assumes u: "u < 2 ^ (w * k)" and n: "n < 2 ^ (w * k)"
    and r: "(if n \<le> u then u - n else u) < 2 ^ (w * l)"
  shows "(case mpn_sub_n w u n k of (vp, cy) \<Rightarrow> mpn_cnd_select w (cy = 0) u vp l)
         = (if n \<le> u then u - n else u)"
proof (cases "n \<le> u")
  case True
  have "mpn_sub_n w u n k = (u - n, 0)" using True u by (rule mpn_sub_n_ge)
  moreover have "limbs_val w l (u - n) = u - n" using r True by (simp add: limbs_val_id)
  ultimately show ?thesis using True by (simp add: mpn_cnd_select_def)
next
  case False
  then have lt: "u < n" by simp
  have "mpn_sub_n w u n k = (u + 2 ^ (w * k) - n, 1)" using lt n by (rule mpn_sub_n_lt)
  moreover have "limbs_val w l u = u" using r False by (simp add: limbs_val_id)
  ultimately show ?thesis using False by (simp add: mpn_cnd_select_def)
qed

lemma mod_cond_sub: "x < 2 * n \<Longrightarrow> (if n \<le> x then x - n else x) = x mod (n::nat)"
  by (simp add: mod_sub_once)


lemma sc_add_correct:
  assumes ok: "sc_ok sc" and a: "a < sc_n sc" and b: "b < sc_n sc"
  shows "sc_add sc a b = Some ((a + b) mod sc_n sc)"
proof -
  let ?w = "numb_bits sc" and ?l = "sc_limbs sc" and ?n = "sc_n sc"
  have w: "0 < ?w" using ok by (simp add: sc_ok_def)
  have nB: "?n < 2 ^ (?w * ?l)" by (rule sc_ok_n_lt [OF ok])
  have B2: "2 * (2::nat) ^ (?w * ?l) \<le> 2 ^ (?w * (?l + 1))" by (rule pow_limbs_mono [OF w])
  have top: "limb_at ?w ?n (?l + 1 - 1) = 0" using nB by (simp add: limb_at_def)
  have la: "limbs_val ?w ?l a = a" using a nB by (simp add: limbs_val_id)
  have lb: "limbs_val ?w ?l b = b" using b nB by (simp add: limbs_val_id)
  have ab: "a + b < 2 ^ (?w * (?l + 1))" using a b nB B2 by linarith
  have n1: "?n < 2 ^ (?w * (?l + 1))" using nB B2 by linarith
  have add: "mpn_add_n ?w a b (?l + 1) = (a + b, 0)"
    using ab by (rule mpn_add_n_small)
  have ab2: "a + b < 2 * ?n" using a b by linarith
  have r: "(if ?n \<le> a + b then a + b - ?n else a + b) < 2 ^ (?w * ?l)"
    using a b nB by (cases "sc_n sc \<le> a + b") auto
  have cs: "(case mpn_sub_n ?w (a + b) ?n (?l + 1) of (vp, cy) \<Rightarrow> mpn_cnd_select ?w (cy = 0) (a + b) vp ?l)
         = (a + b) mod ?n"
    using cond_sub [OF ab n1 r] mod_cond_sub [OF ab2] by simp
  have "sc_add sc a b = Some (case mpn_sub_n ?w (a + b) ?n (?l + 1) of (vp, cy) \<Rightarrow> mpn_cnd_select ?w (cy = 0) (a + b) vp ?l)"
    unfolding sc_add_def Let_def top la lb add by (simp split: prod.splits)
  then show ?thesis using cs by simp
qed


lemma barrett_lower:
  fixes a n B :: nat
  assumes n: "0 < n" and B: "0 < B"
  shows "((a * (B div n)) div B) * n \<le> a"
proof -
  let ?m = "B div n" and ?h = "(a * (B div n)) div B"
  have 1: "?h * B \<le> a * ?m" by simp
  have 2: "?m * n \<le> B" by simp
  have "?h * n * B = (?h * B) * n" by (simp add: mult_ac)
  also have "\<dots> \<le> (a * ?m) * n" using 1 by (rule mult_le_mono1)
  also have "\<dots> = a * (?m * n)" by (simp add: mult_ac)
  also have "\<dots> \<le> a * B" using 2 by (rule mult_le_mono2)
  finally have "?h * n * B \<le> a * B" .
  then show ?thesis using B by simp
qed

lemma barrett_upper:
  fixes a n B :: nat
  assumes n: "0 < n" and B: "0 < B" and a: "a < B"
  shows "a < ((a * (B div n)) div B + 2) * n"
proof -
  let ?m = "B div n" and ?h = "(a * (B div n)) div B"
  have 1: "a * ?m < (?h + 1) * B"
    using dividend_less_div_times [OF B, of "a * ?m"] by (simp add: algebra_simps)
  have 2: "B < (?m + 1) * n"
    using dividend_less_div_times [OF n, of B] by (simp add: algebra_simps)
  have "a * B \<le> a * ((?m + 1) * n)" using 2 by (intro mult_le_mono2) simp
  also have "\<dots> = (a * ?m) * n + a * n" by (simp add: algebra_simps)
  also have "\<dots> < ((?h + 1) * B) * n + a * n"
    using 1 n by simp
  also have "\<dots> \<le> ((?h + 1) * B) * n + B * n" using a by simp
  also have "\<dots> = ((?h + 2) * n) * B" by (simp add: algebra_simps)
  finally have "a * B < ((?h + 2) * n) * B" .
  then show ?thesis by simp
qed

lemma mpn_mul_n_id: "a < 2 ^ (w * k) \<Longrightarrow> b < 2 ^ (w * k) \<Longrightarrow> mpn_mul_n w a b k = a * b"
  by (simp add: mpn_mul_n_def limbs_val_id)

lemma mod_eq_sub_mult: "(h::nat) * n \<le> a \<Longrightarrow> (a - h * n) mod n = a mod n"
  by (metis add.commute le_add_diff_inverse mod_mult_self1)

lemma sc_ok_shift_ge: "sc_ok sc \<Longrightarrow> 2 ^ (numb_bits sc * sc_limbs sc) \<le> (2::nat) ^ (numb_bits sc * sc_shift sc)"
  by (rule power_increasing) (simp_all add: sc_ok_def)

lemma sc_reduce_correct:
  assumes ok: "sc_ok sc" and a: "a < 2 ^ (numb_bits sc * sc_shift sc)"
  shows "sc_reduce sc a = Some (a mod sc_n sc)"
proof -
  let ?w = "numb_bits sc" and ?l = "sc_limbs sc" and ?n = "sc_n sc" and ?sh = "sc_shift sc"
  let ?B = "(2::nat) ^ (?w * ?sh)"
  let ?m = "?B div ?n"
  let ?h = "(a * ?m) div ?B"
  let ?u = "a - ?h * ?n"
  have n1: "1 < ?n" using ok by (simp add: sc_ok_def)
  have n0: "0 < ?n" using n1 by simp
  have B0: "0 < ?B" by simp
  have m: "sc_m sc = ?m" using ok by (simp add: sc_ok_def)
  have nl: "?n < 2 ^ (?w * ?l)" by (rule sc_ok_n_lt [OF ok])
  have nB: "?n < ?B" using nl sc_ok_shift_ge [OF ok] by linarith
  have mB: "?m < ?B" using n1 B0 by (intro div_less_dividend) simp_all
  have q: "mpn_mul_n ?w a (sc_m sc) ?sh = a * ?m"
    unfolding m using a mB by (rule mpn_mul_n_id)
  have hB: "?h < ?B"
  proof -
    have "a * ?m < ?B * ?B" using a mB by (intro mult_strict_mono) simp_all
    then show ?thesis by (simp add: less_mult_imp_div_less)
  qed
  have up: "mpn_mul_n ?w ?h ?n ?sh = ?h * ?n" using hB nB by (rule mpn_mul_n_id)
  have lo: "?h * ?n \<le> a" by (rule barrett_lower [OF n0 B0])
  have hi: "a < (?h + 2) * ?n" by (rule barrett_upper [OF n0 B0 a])
  have BB: "?B \<le> 2 ^ (?w * (?sh * 2))" by (intro power_increasing) simp_all
  have a2: "a < 2 ^ (?w * (?sh * 2))" using a BB by linarith
  have sub1: "mpn_sub_n ?w a (?h * ?n) (?sh * 2) = (?u, 0)" using lo a2 by (rule mpn_sub_n_ge)
  have u2: "?u < 2 * ?n" using lo hi by (simp add: algebra_simps)
  have uB: "?u < ?B" using a by linarith
  have r: "(if ?n \<le> ?u then ?u - ?n else ?u) < 2 ^ (?w * ?l)" using u2 nl by (cases "?n \<le> ?u") auto
  have cs: "(case mpn_sub_n ?w ?u ?n ?sh of (vp, cy) \<Rightarrow> mpn_cnd_select ?w (cy = 0) ?u vp ?l) = a mod ?n"
    using cond_sub [OF uB nB r] mod_cond_sub [OF u2] mod_eq_sub_mult [OF lo] by simp
  have "sc_reduce sc a = Some (case mpn_sub_n ?w ?u ?n ?sh of (vp, cy) \<Rightarrow> mpn_cnd_select ?w (cy = 0) ?u vp ?l)"
    unfolding sc_reduce_def Let_def q up sub1 by (simp split: prod.splits)
  then show ?thesis using cs by simp
qed


lemma sc_ok_lt_limbs: "sc_ok sc \<Longrightarrow> a < sc_n sc \<Longrightarrow> a < 2 ^ (numb_bits sc * sc_limbs sc)"
  using sc_ok_n_lt [of sc] by linarith

lemma sc_is_zero_iff: "sc_ok sc \<Longrightarrow> a < sc_n sc \<Longrightarrow> sc_is_zero sc a = (a = 0)"
  by (simp add: sc_is_zero_def limbs_val_id sc_ok_lt_limbs)

lemma sc_neg_correct:
  assumes ok: "sc_ok sc" and a: "a < sc_n sc"
  shows "sc_neg sc a = (if a = 0 then 0 else sc_n sc - a)"
proof -
  have "mpn_sub_n (numb_bits sc) (sc_n sc) a (sc_limbs sc) = (sc_n sc - a, 0)"
    using a sc_ok_n_lt [OF ok] by (intro mpn_sub_n_ge) simp_all
  then show ?thesis by (simp add: sc_neg_def sc_is_zero_iff [OF ok a])
qed

lemma sc_neg_lt: "sc_ok sc \<Longrightarrow> a < sc_n sc \<Longrightarrow> sc_neg sc a < sc_n sc"
  by (simp add: sc_neg_correct sc_ok_def)

lemma sc_sub_correct:
  assumes ok: "sc_ok sc" and a: "a < sc_n sc" and b: "b < sc_n sc"
  shows "sc_sub sc a b = Some ((a + (sc_n sc - b)) mod sc_n sc)"
proof (cases "b = 0")
  case True
  have z: "(0::nat) < sc_n sc" using ok by (simp add: sc_ok_def)
  show ?thesis using True sc_add_correct [OF ok a z]
    by (simp add: sc_sub_def sc_neg_correct [OF ok z])
next
  case False
  have "sc_n sc - b < sc_n sc" using False b by simp
  then show ?thesis using False sc_add_correct [OF ok a, of "sc_n sc - b"]
    by (simp add: sc_sub_def sc_neg_correct [OF ok b])
qed

lemma sc_prod_lt_shift:
  assumes ok: "sc_ok sc" and a: "a < sc_n sc" and b: "b < sc_n sc"
  shows "a * b < 2 ^ (numb_bits sc * sc_shift sc)"
proof -
  let ?B = "(2::nat) ^ (numb_bits sc * sc_limbs sc)"
  have "a * b < ?B * ?B"
    using sc_ok_lt_limbs [OF ok a] sc_ok_lt_limbs [OF ok b] by (intro mult_strict_mono) simp_all
  also have "?B * ?B = 2 ^ (numb_bits sc * sc_limbs sc + numb_bits sc * sc_limbs sc)"
    by (simp add: power_add)
  also have "\<dots> \<le> 2 ^ (numb_bits sc * sc_shift sc)"
    using ok by (intro power_increasing) (simp_all add: sc_ok_def algebra_simps)
  finally show ?thesis .
qed

lemma sc_mul_correct:
  assumes ok: "sc_ok sc" and a: "a < sc_n sc" and b: "b < sc_n sc"
  shows "sc_mul sc a b = Some (a * b mod sc_n sc)"
proof -
  have "mpn_mul_n (numb_bits sc) a b (sc_limbs sc) = a * b"
    using sc_ok_lt_limbs [OF ok a] sc_ok_lt_limbs [OF ok b] by (rule mpn_mul_n_id)
  then show ?thesis
    using sc_reduce_correct [OF ok sc_prod_lt_shift [OF ok a b]] by (simp add: sc_mul_def)
qed

lemma sc_sqr_correct:
  assumes ok: "sc_ok sc" and a: "a < sc_n sc"
  shows "sc_sqr sc a = Some (a * a mod sc_n sc)"
proof -
  have "mpn_sqr (numb_bits sc) a (sc_limbs sc) = a * a"
    using sc_ok_lt_limbs [OF ok a] by (simp add: mpn_sqr_def limbs_val_id)
  then show ?thesis
    using sc_reduce_correct [OF ok sc_prod_lt_shift [OF ok a a]] by (simp add: sc_sqr_def)
qed

lemma sc_n_pos: "sc_ok sc \<Longrightarrow> 0 < sc_n sc"
  by (simp add: sc_ok_def)

lemma sc_pow_loop_correct:
  assumes ok: "sc_ok sc" and a: "a < sc_n sc"
  shows "b < sc_n sc \<Longrightarrow> \<exists>r. sc_pow_loop sc a e i b = Some r \<and> r < sc_n sc"
proof (induction i arbitrary: b)
  case 0
  then show ?case by simp
next
  case (Suc i)
  have s: "sc_sqr sc b = Some (b * b mod sc_n sc)" by (rule sc_sqr_correct [OF ok Suc.prems])
  have s1: "b * b mod sc_n sc < sc_n sc" using sc_n_pos [OF ok] by simp
  have m: "sc_mul sc (b * b mod sc_n sc) a = Some (b * b mod sc_n sc * a mod sc_n sc)"
    by (rule sc_mul_correct [OF ok s1 a])
  have m1: "b * b mod sc_n sc * a mod sc_n sc < sc_n sc" using sc_n_pos [OF ok] by simp
  show ?case using Suc.IH [OF s1] Suc.IH [OF m1] by (simp add: s m Let_def)
qed

lemma sc_invert_lt:
  assumes ok: "sc_ok sc" and a: "a < sc_n sc"
  shows "\<exists>r. sc_invert sc a = Some (r, a \<noteq> 0) \<and> r < sc_n sc"
proof -
  have one: "sc_set_word sc 1 < sc_n sc" using ok
    by (simp add: sc_set_word_def limbs_val_def sc_ok_def)
  obtain r where "sc_pow_loop sc a (fst (mpn_sub_1 (numb_bits sc) (sc_n sc) (sc_limbs sc) 2)) (sc_bits sc) (sc_set_word sc 1) = Some r" "r < sc_n sc"
    using sc_pow_loop_correct [OF ok a one] by blast
  then show ?thesis by (simp add: sc_invert_def sc_pow_def sc_is_zero_iff [OF ok a] Let_def)
qed

lemma sc_is_high_iff:
  assumes ok: "sc_ok sc" and a: "a < sc_n sc"
  shows "sc_is_high sc a = (sc_n sc div 2 < a)"
proof -
  let ?w = "numb_bits sc" and ?l = "sc_limbs sc" and ?nh = "sc_n sc div 2"
  have nh: "sc_nh sc = ?nh" using ok by (simp add: sc_ok_def)
  have al: "a < 2 ^ (?w * ?l)" by (rule sc_ok_lt_limbs [OF ok a])
  have hl: "?nh < 2 ^ (?w * ?l)" using sc_ok_n_lt [OF ok] by (meson div_le_dividend le_less_trans)
  have eq: "sc_equal sc a ?nh = (a = ?nh)" using al hl by (simp add: sc_equal_def limbs_val_id)
  show ?thesis
  proof (cases "?nh \<le> a")
    case True
    have "mpn_sub_n ?w a ?nh ?l = (a - ?nh, 0)" using True al by (rule mpn_sub_n_ge)
    then show ?thesis using True by (auto simp: sc_is_high_def nh eq)
  next
    case False
    then have "a < ?nh" by simp
    then have "mpn_sub_n ?w a ?nh ?l = (a + 2 ^ (?w * ?l) - ?nh, 1)" using hl by (rule mpn_sub_n_lt)
    then show ?thesis using False by (auto simp: sc_is_high_def nh eq)
  qed
qed

lemma sc_minimize_correct:
  assumes ok: "sc_ok sc" and a: "a < sc_n sc"
  shows "sc_minimize sc a = (if sc_n sc div 2 < a then sc_n sc - a else a, sc_n sc div 2 < a)"
proof -
  have 1: "limbs_val (numb_bits sc) (sc_limbs sc) a = a" using sc_ok_lt_limbs [OF ok a] by (rule limbs_val_id)
  have "sc_n sc - a < 2 ^ (numb_bits sc * sc_limbs sc)" using sc_ok_n_lt [OF ok] by linarith
  then have 2: "limbs_val (numb_bits sc) (sc_limbs sc) (sc_n sc - a) = sc_n sc - a"
    by (rule limbs_val_id)
  show ?thesis
    by (auto simp: sc_minimize_def sc_neg_cond_def sc_select_def mpn_cnd_select_def
        sc_is_high_iff [OF ok a] sc_neg_correct [OF ok a] 1 2 Let_def)
qed


lemma le_val_lt: "le_val xs < 256 ^ length xs"
proof (induction xs)
  case Nil
  then show ?case by simp
next
  case (Cons x xs)
  have "unat x < 256" using unsigned_less [of x, where ?'a = nat] by simp
  then show ?case using Cons by simp
qed

lemma bytes_val_lt: "bytes_val e xs < 256 ^ length xs"
  using le_val_lt [of xs] le_val_lt [of "rev xs"] by (simp add: bytes_val_def be_val_def)

lemma pow256: "(256::nat) ^ k = 2 ^ (8 * k)"
  by (simp add: power_mult)

lemma bytes_val_take_lt: "bytes_val e (take k xs) < 2 ^ (8 * k)"
proof -
  have "bytes_val e (take k xs) < 256 ^ length (take k xs)" by (rule bytes_val_lt)
  also have "(256::nat) ^ length (take k xs) \<le> 256 ^ k" by (intro power_increasing) simp_all
  finally show ?thesis by (simp add: pow256)
qed

lemma sc_import_weak_correct:
  assumes ok: "sc_ok sc" and al: "sc_bits sc mod 8 = 0"
  shows "\<exists>r c. sc_import_weak sc raw = (r, c) \<and> r < sc_n sc"
proof -
  let ?w = "numb_bits sc" and ?l = "sc_limbs sc" and ?n = "sc_n sc"
  let ?v = "bytes_val (sc_endian sc) (take (sc_size sc) raw)"
  have sz: "8 * sc_size sc = sc_bits sc" using ok al by (simp add: sc_ok_def) presburger
  have v: "?v < 2 ^ sc_bits sc" using bytes_val_take_lt [of "sc_endian sc" "sc_size sc" raw] by (simp add: sz)
  have bl: "(2::nat) ^ sc_bits sc \<le> 2 ^ (?w * ?l)" using sc_ok_bits_le [OF ok] by (simp add: power_increasing)
  have vl: "?v < 2 ^ (?w * ?l)" using v bl by linarith
  have imp: "mpn_import ?w ?l raw (sc_size sc) (sc_endian sc) = ?v"
    using vl by (simp add: mpn_import_def limbs_val_id)
  have "(2::nat) ^ sc_bits sc = 2 * 2 ^ (sc_bits sc - 1)" using ok
    by (cases "sc_bits sc") (simp_all add: sc_ok_def)
  then have v2: "?v < 2 * ?n" using v ok by (simp add: sc_ok_def)
  have r: "(if ?n \<le> ?v then ?v - ?n else ?v) < 2 ^ (?w * ?l)" using vl by (cases "?n \<le> ?v") auto
  have cs: "(case mpn_sub_n ?w ?v ?n ?l of (vp, cy) \<Rightarrow> mpn_cnd_select ?w (cy = 0) ?v vp ?l) = ?v mod ?n"
    using cond_sub [OF vl sc_ok_n_lt [OF ok] r] mod_cond_sub [OF v2] by simp
  have "fst (sc_import_weak sc raw) = (case mpn_sub_n ?w ?v ?n ?l of (vp, cy) \<Rightarrow> mpn_cnd_select ?w (cy = 0) ?v vp ?l)"
    unfolding sc_import_weak_def Let_def imp by (simp split: prod.splits)
  then have "fst (sc_import_weak sc raw) < ?n" using cs sc_n_pos [OF ok] by simp
  then show ?thesis by (cases "sc_import_weak sc raw") auto
qed

lemma sc_import_strong_correct:
  assumes ok: "sc_ok sc"
  shows "\<exists>c. sc_import_strong sc raw = Some (bytes_val (sc_endian sc) (take (sc_size sc) raw) mod sc_n sc, c)"
proof -
  let ?w = "numb_bits sc" and ?l = "sc_limbs sc" and ?n = "sc_n sc" and ?sh = "sc_shift sc"
  let ?v = "bytes_val (sc_endian sc) (take (sc_size sc) raw)"
  have w: "8 \<le> ?w" using ok by (simp add: sc_ok_def)
  have sz: "8 * sc_size sc \<le> sc_bits sc + 7" using ok by (simp add: sc_ok_def)
  have "sc_bits sc + 7 \<le> ?w * ?l + ?w" using sc_ok_bits_le [OF ok] w by linarith
  also have "\<dots> \<le> ?w * ?sh" using ok by (simp add: sc_ok_def)
  finally have le: "8 * sc_size sc \<le> ?w * ?sh" using sz by linarith
  have "?v < 2 ^ (8 * sc_size sc)" by (rule bytes_val_take_lt)
  also have "(2::nat) ^ (8 * sc_size sc) \<le> 2 ^ (?w * ?sh)" using le by (simp add: power_increasing)
  finally have v: "?v < 2 ^ (?w * ?sh)" .
  have "(2::nat) ^ (?w * ?sh) \<le> 2 ^ (?w * (?sh * 2))" by (intro power_increasing) simp_all
  then have v2: "?v < 2 ^ (?w * (?sh * 2))" using v by linarith
  have imp: "mpn_import ?w (?sh * 2) raw (sc_size sc) (sc_endian sc) = ?v"
    using v2 by (simp add: mpn_import_def limbs_val_id)
  show ?thesis unfolding sc_import_strong_def Let_def imp sc_reduce_correct [OF ok v] by simp
qed

lemma sc_import_reduce_lt:
  assumes ok: "sc_ok sc"
  shows "\<exists>r c. sc_import_reduce sc raw = Some (r, c) \<and> r < sc_n sc"
proof (cases "sc_bits sc mod 8 = 0")
  case True
  then show ?thesis using sc_import_weak_correct [OF ok True, of raw] by (auto simp: sc_import_reduce_def)
next
  case False
  then show ?thesis using sc_import_strong_correct [OF ok, of raw] sc_n_pos [OF ok]
    by (auto simp: sc_import_reduce_def)
qed


lemma round_shift:
  assumes s: "0 < s"
  shows "((v::nat) + 2 ^ (s - 1)) div 2 ^ s = v div 2 ^ s + (v div 2 ^ (s - 1)) mod 2"
proof -
  obtain t where t: "s = Suc t" using s by (cases s) auto
  let ?x = "v div 2 ^ t"
  have p: "(2::nat) ^ s = 2 ^ t * 2" by (simp add: t)
  have 1: "v div 2 ^ s = ?x div 2" unfolding p by (rule div_mult2_eq)
  have "(v + 2 ^ t) div 2 ^ t = ?x + 1"
    using div_add_self2 [of "(2::nat) ^ t" v] by simp
  then have 2: "(v + 2 ^ t) div 2 ^ s = (?x + 1) div 2"
    unfolding p by (simp only: div_mult2_eq)
  have "\<And>y::nat. (y + 1) div 2 = y div 2 + y mod 2" by presburger
  then have 3: "(?x + 1) div 2 = ?x div 2 + ?x mod 2" .
  show ?thesis using 1 2 3 by (simp add: t)
qed

lemma bit_extract:
  assumes w: "0 < w"
  shows "limb_at w v (i div w) div 2 ^ (i mod w) mod 2 = (v div 2 ^ i) mod 2"
proof -
  let ?k = "i div w" and ?r = "i mod w"
  have r: "?r < w" using w by simp
  have "limb_at w v ?k div 2 ^ ?r mod 2 = take_bit 1 (drop_bit ?r (take_bit w (drop_bit (w * ?k) v)))"
    by (simp add: limb_at_def take_bit_eq_mod drop_bit_eq_div)
  also have "\<dots> = take_bit 1 (take_bit (w - ?r) (drop_bit ?r (drop_bit (w * ?k) v)))"
    by (simp add: drop_bit_take_bit)
  also have "\<dots> = take_bit 1 (drop_bit (w * ?k + ?r) v)"
  proof -
    have "min 1 (w - ?r) = 1" using r by linarith
    then show ?thesis by (simp only: take_bit_take_bit drop_bit_drop_bit add.commute)
  qed
  also have "w * ?k + ?r = i" by simp
  finally show ?thesis by (simp add: take_bit_eq_mod drop_bit_eq_div)
qed

lemma limb_zero_lt:
  assumes x: "x < 2 ^ (w * (k + 1))" and z: "limb_at w x k = 0"
  shows "x < 2 ^ (w * k)"
proof -
  have "x div 2 ^ (w * k) < 2 ^ w"
    using x by (simp add: less_mult_imp_div_less power_add mult.commute)
  then have "x div 2 ^ (w * k) = 0" using z by (simp add: limb_at_def)
  then show ?thesis by (simp add: div_eq_0_iff)
qed

lemma limb_nonzero_ge: "limb_at w x k \<noteq> 0 \<Longrightarrow> 2 ^ (w * k) \<le> x"
  by (rule ccontr) (simp add: limb_at_def not_le)


lemma sc_ok_limbs_lt: 
  assumes ok: "sc_ok sc" shows "numb_bits sc * (sc_limbs sc - 1) < sc_bits sc"
proof -
  let ?w = "numb_bits sc" and ?b = "sc_bits sc"
  have w: "0 < ?w" and b: "0 < ?b" and l: "sc_limbs sc = (?b + ?w - 1) div ?w"
    using ok by (simp_all add: sc_ok_def)
  have "?w * ((?b + ?w - 1) div ?w) \<le> ?b + ?w - 1" by simp
  then have "?w * ((?b + ?w - 1) div ?w) < ?b + ?w" using w by linarith
  then have "?w * sc_limbs sc < ?b + ?w" unfolding l .
  moreover have "0 < sc_limbs sc" using l w b by (simp add: div_greater_zero_iff)
  ultimately show ?thesis using w by (cases "sc_limbs sc") (simp_all add: algebra_simps)
qed

lemma mulshift_quot_small:
  assumes a: "a < (2::nat) ^ k" and b: "b < 2 ^ k" and s: "k < s" and k: "0 < k"
  shows "a * b div 2 ^ s + 1 < 2 ^ k"
proof -
  let ?q = "a * b div 2 ^ s"
  have "a * b < 2 ^ k * 2 ^ k" using a b by (intro mult_strict_mono) simp_all
  moreover have "?q * 2 ^ s \<le> a * b" by simp
  moreover have "?q * (2 ^ (k + 1)) \<le> ?q * 2 ^ s" using s by (intro mult_le_mono2 power_increasing) simp_all
  ultimately have "?q * (2 ^ (k + 1)) < 2 ^ k * 2 ^ k" by linarith
  then have "(?q * 2) * 2 ^ k < 2 ^ k * 2 ^ k" by (simp add: mult_ac)
  then have "?q * 2 < 2 ^ k" by simp
  moreover obtain j where "k = Suc j" using k by (cases k) auto
  ultimately show ?thesis by (cases j) auto
qed


lemma pow2_lt_imp_lt: "(2::nat) ^ a \<le> x \<Longrightarrow> x < 2 ^ b \<Longrightarrow> a < b"
proof -
  assume "(2::nat) ^ a \<le> x" "x < 2 ^ b"
  then have "(2::nat) ^ a < 2 ^ b" by linarith
  then show "a < b" by simp
qed

lemma mulshift_tail:
  assumes q1: "q + 1 < 2 ^ (w * l)" and q: "q < 2 ^ (w * rn)" and rn: "rn \<le> l"
    and bt: "bt \<le> 1" and w: "0 < w"
  shows "(case mpn_add_1 w q (rn + 1) bt of
            (rp, c) \<Rightarrow>
              if \<not> rn + 1 - (if limb_at w rp (rn + 1 - 1) = 0 then 1 else 0) \<le> l then None
              else Some (limbs_val w (rn + 1 - (if limb_at w rp (rn + 1 - 1) = 0 then 1 else 0)) rp))
         = Some (q + bt)"
proof -
  have up: "2 * (2::nat) ^ (w * rn) \<le> 2 ^ (w * (rn + 1))" by (rule pow_limbs_mono [OF w])
  have R: "q + bt < 2 ^ (w * (rn + 1))" using q bt up by linarith
  have lq: "limbs_val w (rn + 1) q = q" using q up by (intro limbs_val_id) linarith
  have "(2::nat) ^ 1 \<le> 2 ^ (w * 1)" using w by (intro power_increasing) simp_all
  then have "bt < 2 ^ (w * 1)" using bt by simp
  then have lb: "limbs_val w 1 bt = bt" by (rule limbs_val_id)
  have add: "mpn_add_1 w q (rn + 1) bt = (q + bt, 0)"
    using R by (simp add: mpn_add_1_def lq lb Let_def del: One_nat_def)
  show ?thesis
  proof (cases "limb_at w (q + bt) rn = 0")
    case True
    have "q + bt < 2 ^ (w * rn)" using R True by (rule limb_zero_lt)
    then have "limbs_val w rn (q + bt) = q + bt" by (rule limbs_val_id)
    then show ?thesis unfolding add prod.case using True rn by simp
  next
    case False
    have "2 ^ (w * rn) \<le> q + bt" using False by (rule limb_nonzero_ge)
    moreover have "q + bt < 2 ^ (w * l)" using q1 bt by linarith
    ultimately have "w * rn < w * l" by (rule pow2_lt_imp_lt)
    then have lt: "rn < l" by simp
    have "limbs_val w (Suc rn) (q + bt) = q + bt" using R by (simp add: limbs_val_id)
    then show ?thesis unfolding add prod.case using False lt by simp
  qed
qed

lemma sc_mulshift_correct:
  assumes ok: "sc_ok sc" and a: "a < sc_n sc" and b: "b < sc_n sc"
    and s: "sc_bits sc < s" and s2: "s div numb_bits sc < 2 * sc_limbs sc"
  shows "sc_mulshift sc a b s = Some ((a * b + 2 ^ (s - 1)) div 2 ^ s)"
proof -
  let ?w = "numb_bits sc" and ?l = "sc_limbs sc" and ?n = "sc_n sc"
  let ?v = "a * b" and ?lim = "s div ?w" and ?left = "s mod ?w"
  let ?q = "?v div 2 ^ s" and ?bit = "(?v div 2 ^ (s - 1)) mod 2"
  let ?rn1 = "2 * ?l - ?lim"
  let ?rp1 = "?v div 2 ^ (?w * ?lim)"
  have w: "0 < ?w" using ok by (simp add: sc_ok_def)
  have s0: "0 < s" using s by simp
  have bits0: "0 < sc_bits sc" using ok by (simp add: sc_ok_def)
  have mul: "mpn_mul_n ?w a b ?l = ?v"
    using sc_ok_lt_limbs [OF ok a] sc_ok_lt_limbs [OF ok b] by (rule mpn_mul_n_id)
  have ab: "a < 2 ^ sc_bits sc" "b < 2 ^ sc_bits sc" using a b ok by (simp_all add: sc_ok_def)
  have q1: "?q + 1 < 2 ^ sc_bits sc" by (rule mulshift_quot_small [OF ab s bits0])
  have bl: "(2::nat) ^ sc_bits sc \<le> 2 ^ (?w * ?l)" using sc_ok_bits_le [OF ok] by (simp add: power_increasing)
  have ql: "?q + 1 < 2 ^ (?w * ?l)" using q1 bl by linarith
  have bit: "limb_at ?w ?v ((s - 1) div ?w) div 2 ^ ((s - 1) mod ?w) mod 2 = ?bit"
    by (rule bit_extract [OF w])
  have idx: "\<not> 2 * ?l < (s - 1) div ?w"
    using s2 div_le_mono [of "s - 1" s ?w] by simp
  have rn1: "0 < ?rn1" using s2 by simp
  have lim_ge: "?l - 1 \<le> ?lim"
  proof -
    have "?w * (?l - 1) < s" using sc_ok_limbs_lt [OF ok] s by linarith
    then have "(?w * (?l - 1)) div ?w \<le> s div ?w" by (intro div_le_mono) simp
    then show ?thesis using w by simp
  qed
  have rn1_le: "?rn1 \<le> ?l + 1" using lim_ge by linarith
  have vB: "?v < 2 ^ (?w * (2 * ?l))"
  proof -
    have e: "?w * (2 * ?l) = ?w * ?l + ?w * ?l" by simp
    have "?v < 2 ^ (?w * ?l) * 2 ^ (?w * ?l)"
      using sc_ok_lt_limbs [OF ok a] sc_ok_lt_limbs [OF ok b] by (intro mult_strict_mono) simp_all
    then show ?thesis unfolding e power_add .
  qed
  have rp1: "?rp1 < 2 ^ (?w * ?rn1)"
  proof -
    have "?w * (2 * ?l) = ?w * ?lim + ?w * ?rn1" using s2 by (simp add: algebra_simps) 
    then have "?v < 2 ^ (?w * ?lim) * 2 ^ (?w * ?rn1)" using vB by (simp add: power_add)
    then show ?thesis by (simp add: less_mult_imp_div_less mult.commute)
  qed
  have qdecomp: "?rp1 div 2 ^ ?left = ?q"
  proof -
    have "?rp1 div 2 ^ ?left = ?v div (2 ^ (?w * ?lim) * 2 ^ ?left)" by (simp add: div_mult2_eq)
    also have "(2::nat) ^ (?w * ?lim) * 2 ^ ?left = 2 ^ (?w * ?lim + ?left)" by (simp only: power_add)
    also have "?w * ?lim + ?left = s" by simp
    finally show ?thesis .
  qed
  let ?P = "if s mod ?w \<noteq> 0
            then (mpn_rshift ?w (a * b div 2 ^ (?w * (s div ?w))) (?l * 2 - s div ?w) (s mod ?w),
                  ?l * 2 - s div ?w -
                  (if limb_at ?w (mpn_rshift ?w (a * b div 2 ^ (?w * (s div ?w))) (?l * 2 - s div ?w) (s mod ?w))
                        (?l * 2 - s div ?w - 1) = 0 then 1 else 0))
            else (a * b div 2 ^ (?w * (s div ?w)), ?l * 2 - s div ?w)"
  have rn1': "?l * 2 - ?lim = ?rn1" by simp
  have qlt: "?q < 2 ^ (?w * ?l)" using ql by linarith
  have P: "\<exists>rn2. ?P = (?q, rn2) \<and> ?q < 2 ^ (?w * rn2) \<and> rn2 \<le> ?l"
  proof (cases "?left = 0")
    case True
    have q: "?rp1 = ?q" using qdecomp True by simp
    have "s = ?w * ?lim" using True by (metis add.right_neutral mult_div_mod_eq)
    then have "?w * (?l - 1) < ?w * ?lim" using sc_ok_limbs_lt [OF ok] s by linarith
    then have "?l - 1 < ?lim" by simp
    then have "?rn1 \<le> ?l" by linarith
    then show ?thesis using True rp1 q by (simp add: rn1')
  next
    case False
    have sh: "mpn_rshift ?w ?rp1 ?rn1 ?left = ?q"
      using rp1 qdecomp by (simp add: mpn_rshift_def limbs_val_id)
    have qr: "?q < 2 ^ (?w * ?rn1)"
      using rp1 qdecomp by (metis div_le_dividend le_less_trans)
    show ?thesis
    proof (cases "limb_at ?w ?q (?rn1 - 1) = 0")
      case True
      have e: "?rn1 - 1 + 1 = ?rn1" using rn1 by linarith
      have "?q < 2 ^ (?w * (?rn1 - 1 + 1))" unfolding e by (rule qr)
      then have "?q < 2 ^ (?w * (?rn1 - 1))" using True by (rule limb_zero_lt)
      moreover have "?rn1 - 1 \<le> ?l" using rn1_le by linarith
      ultimately show ?thesis using False True by (simp add: rn1' sh)
    next
      case F2: False
      have "2 ^ (?w * (?rn1 - 1)) \<le> ?q" using F2 by (rule limb_nonzero_ge)
      then have "?w * (?rn1 - 1) < ?w * ?l" using qlt by (rule pow2_lt_imp_lt)
      then have "?rn1 - 1 < ?l" by simp
      then have "?rn1 \<le> ?l" by linarith
      then show ?thesis using False F2 qr by (simp add: rn1' sh)
    qed
  qed
  then obtain rn2 where P1: "?P = (?q, rn2)" and P2: "?q < 2 ^ (?w * rn2)" and P3: "rn2 \<le> ?l"
    by blast
  have bit1: "?bit \<le> 1" by simp
  have g1: "(\<not> sc_bits sc < s) = False" using s by simp
  have g2: "(?l * 2 < (s - 1) div ?w) = False" using idx by (simp add: mult.commute)
  have g3: "(\<not> s div ?w < ?l * 2) = False" using s2 by (simp add: mult.commute)
  have r: "?q + ?bit = (a * b + 2 ^ (s - 1)) div 2 ^ s" using round_shift [OF s0, of ?v] by simp
  show ?thesis
    unfolding sc_mulshift_def Let_def mul g1 g2 g3 if_False P1 prod.case bit
      mulshift_tail [OF ql P2 P3 bit1 w] r ..
qed



lemma max_reduce_ge: assumes w: "0 < w" shows "521 \<le> w * MAX_REDUCE_LIMBS w"
proof -
  have "521 \<le> w * ((521 + w - 1) div w)" by (rule ceil_mult_ge [OF w])
  also have "\<dots> \<le> w * MAX_REDUCE_LIMBS w" by (simp add: MAX_REDUCE_LIMBS_def)
  finally show ?thesis .
qed

lemma scalar_field_set_ok:
  assumes w: "8 \<le> w" and bits: "0 < bits" "bits \<le> 521" and e: "endian = 1 \<or> endian = - 1"
    and n: "be_val (take ((bits + 7) div 8) modulus) = n"
    and n1: "1 < n" and n2: "n < 2 ^ bits" and n3: "2 ^ (bits - 1) \<le> n"
  shows "sc_ok (scalar_field_set w modulus bits endian) \<and> sc_n (scalar_field_set w modulus bits endian) = n"
proof -
  let ?l = "(bits + w - 1) div w"
  have w0: "0 < w" using w by simp
  have "bits \<le> w * MAX_REDUCE_LIMBS w" using max_reduce_ge [OF w0] bits by linarith
  then have "(2::nat) ^ bits \<le> 2 ^ (w * MAX_REDUCE_LIMBS w)" by (simp add: power_increasing)
  then have nm: "n < 2 ^ (w * MAX_REDUCE_LIMBS w)" using n2 by linarith
  have "bits \<le> w * ?l" by (rule ceil_mult_ge [OF w0])
  then have "(2::nat) ^ bits \<le> 2 ^ (w * ?l)" by (simp add: power_increasing)
  then have nl: "n < 2 ^ (w * ?l)" using n2 by linarith
  have 1: "limbs_val w (MAX_REDUCE_LIMBS w) n = n" using nm by (rule limbs_val_id)
  have 2: "limbs_val w ?l n = n" using nl by (rule limbs_val_id)
  show ?thesis
    using w bits e n1 n2 n3 1 2
    by (simp add: sc_ok_def scalar_field_set_def Let_def n mpn_rshift_def mpn_tdiv_q_def mpn_export_def)
qed

lemma be_val_q256k1:
  "be_val (take ((256 + 7) div 8) field_q256k1_n)
     = 0xfffffffffffffffffffffffffffffffebaaedce6af48a03bbfd25e8cd0364141"
  by (simp add: field_q256k1_n_def be_val_def)

lemma q256k1_ok: "sc_ok q256k1 \<and> sc_n q256k1 = 0xfffffffffffffffffffffffffffffffebaaedce6af48a03bbfd25e8cd0364141"
  unfolding q256k1_def
  by (rule scalar_field_set_ok [OF _ _ _ _ be_val_q256k1]) simp_all

lemma q256k1_fields: "numb_bits q256k1 = 64" "sc_bits q256k1 = 256" "sc_limbs q256k1 = 4" "sc_shift q256k1 = 10"
  by (simp_all add: q256k1_def scalar_field_set_def Let_def)

section \<open>Scalar field: the claims\<close>



lemma barrett_single_subtract:
  assumes ok: "sc_ok sc" and x: "x < 2 ^ (numb_bits sc * sc_shift sc)"
  shows "x - (x * sc_m sc div 2 ^ (numb_bits sc * sc_shift sc)) * sc_n sc < 2 * sc_n sc"
    and "(x * sc_m sc div 2 ^ (numb_bits sc * sc_shift sc)) * sc_n sc \<le> x"
proof -
  let ?B = "(2::nat) ^ (numb_bits sc * sc_shift sc)"
  have m: "sc_m sc = ?B div sc_n sc" using ok by (simp add: sc_ok_def)
  have n0: "0 < sc_n sc" by (rule sc_n_pos [OF ok])
  have B0: "0 < ?B" by simp
  show lo: "(x * sc_m sc div ?B) * sc_n sc \<le> x" unfolding m by (rule barrett_lower [OF n0 B0])
  have hi: "x < ((x * sc_m sc div ?B) + 2) * sc_n sc" unfolding m by (rule barrett_upper [OF n0 B0 x])
  show "x - (x * sc_m sc div ?B) * sc_n sc < 2 * sc_n sc" using lo hi by (simp add: algebra_simps)
qed

text \<open>
  Claim C5.  Every scalar-field operation preserves full reduction: for operands in
  \<open>[0, n)\<close> the results of \<^verbatim>\<open>sc_add\<close>, \<^verbatim>\<open>sc_sub\<close>, \<^verbatim>\<open>sc_neg\<close>, \<^verbatim>\<open>sc_mul\<close>, \<^verbatim>\<open>sc_sqr\<close>,
  \<^verbatim>\<open>sc_import_reduce\<close> (on any byte string), \<^verbatim>\<open>sc_invert\<close> and \<^verbatim>\<open>sc_minimize\<close> are returned
  and lie in \<open>[0, n)\<close>; \<^verbatim>\<open>sc_neg\<close> maps 0 to 0; and in the Barrett reduction of any
  value \<open>x\<close> of \<open>shift\<close> limbs the remainder estimate \<open>u = x - h * n\<close> is below \<open>2 * n\<close>, so
  the single conditional subtraction of \<open>n\<close> that ends \<^verbatim>\<open>sc_reduce\<close> gives the result.
\<close>

theorem sc_ops_stay_reduced:
  assumes ok: "sc_ok sc" and a: "a < sc_n sc" and b: "b < sc_n sc"
    and x: "x < 2 ^ (numb_bits sc * sc_shift sc)"
  shows "returns_reduced sc (sc_add sc a b)
       \<and> returns_reduced sc (sc_sub sc a b)
       \<and> sc_neg sc a < sc_n sc
       \<and> returns_reduced sc (sc_mul sc a b)
       \<and> returns_reduced sc (sc_sqr sc a)
       \<and> returns_reduced sc (map_option fst (sc_import_reduce sc raw))
       \<and> returns_reduced sc (map_option fst (sc_invert sc a))
       \<and> fst (sc_minimize sc a) < sc_n sc
       \<and> sc_neg sc 0 = 0
       \<and> x - (x * sc_m sc div 2 ^ (numb_bits sc * sc_shift sc)) * sc_n sc < 2 * sc_n sc
       \<and> sc_reduce sc x =
           Some (let u = x - (x * sc_m sc div 2 ^ (numb_bits sc * sc_shift sc)) * sc_n sc
                 in if sc_n sc \<le> u then u - sc_n sc else u)"
proof -
  have n0: "0 < sc_n sc" by (rule sc_n_pos [OF ok])
  have 1: "returns_reduced sc (sc_add sc a b)"
    using n0 by (simp add: returns_reduced_def sc_add_correct [OF ok a b])
  have 2: "returns_reduced sc (sc_sub sc a b)"
    using n0 by (simp add: returns_reduced_def sc_sub_correct [OF ok a b])
  have 3: "sc_neg sc a < sc_n sc" by (rule sc_neg_lt [OF ok a])
  have 4: "returns_reduced sc (sc_mul sc a b)"
    using n0 by (simp add: returns_reduced_def sc_mul_correct [OF ok a b])
  have 5: "returns_reduced sc (sc_sqr sc a)"
    using n0 by (simp add: returns_reduced_def sc_sqr_correct [OF ok a])
  have 6: "returns_reduced sc (map_option fst (sc_import_reduce sc raw))"
    using sc_import_reduce_lt [OF ok, of raw] by (auto simp: returns_reduced_def)
  have 7: "returns_reduced sc (map_option fst (sc_invert sc a))"
    using sc_invert_lt [OF ok a] by (auto simp: returns_reduced_def)
  have 8: "fst (sc_minimize sc a) < sc_n sc"
    using a n0 by (simp add: sc_minimize_correct [OF ok a])
  have 9: "sc_neg sc 0 = 0" using sc_neg_correct [OF ok n0] by simp
  let ?u = "x - (x * sc_m sc div 2 ^ (numb_bits sc * sc_shift sc)) * sc_n sc"
  have 10: "?u < 2 * sc_n sc" by (rule barrett_single_subtract(1) [OF ok x])
  have "?u mod sc_n sc = x mod sc_n sc"
    by (rule mod_eq_sub_mult [OF barrett_single_subtract(2) [OF ok x]])
  then have 11: "sc_reduce sc x = Some (let u = ?u in if sc_n sc \<le> u then u - sc_n sc else u)"
    using sc_reduce_correct [OF ok x] mod_cond_sub [OF 10] by (simp add: Let_def)
  show ?thesis using 1 2 3 4 5 6 7 8 9 10 11 by blast
qed

text \<open>Witness for C5: the scalar field of secp256k1 with 64-bit limbs.\<close>

theorem sc_ops_stay_reduced_witness:
  "sc_ok q256k1 \<and> 5 < sc_n q256k1 \<and> 7 < sc_n q256k1
   \<and> (2::nat) ^ 600 < 2 ^ (numb_bits q256k1 * sc_shift q256k1)
   \<and> returns_reduced q256k1 (sc_add q256k1 5 7)
   \<and> returns_reduced q256k1 (sc_sub q256k1 5 7)
   \<and> sc_neg q256k1 5 < sc_n q256k1
   \<and> returns_reduced q256k1 (sc_mul q256k1 5 7)
   \<and> returns_reduced q256k1 (sc_sqr q256k1 5)
   \<and> returns_reduced q256k1 (map_option fst (sc_import_reduce q256k1 field_q256k1_n))
   \<and> returns_reduced q256k1 (map_option fst (sc_invert q256k1 5))
   \<and> fst (sc_minimize q256k1 5) < sc_n q256k1
   \<and> sc_neg q256k1 0 = 0
   \<and> sc_reduce q256k1 (2 ^ 600) = Some (2 ^ 600 mod sc_n q256k1)"
proof -
  have ok: "sc_ok q256k1" using q256k1_ok by simp
  have a: "5 < sc_n q256k1" using q256k1_ok by simp
  have b: "7 < sc_n q256k1" using q256k1_ok by simp
  have x: "(2::nat) ^ 600 < 2 ^ (numb_bits q256k1 * sc_shift q256k1)" by (simp add: q256k1_fields)
  have r: "sc_reduce q256k1 (2 ^ 600) = Some (2 ^ 600 mod sc_n q256k1)" by (rule sc_reduce_correct [OF ok x])
  show ?thesis
    using sc_ops_stay_reduced [OF ok a b x, of field_q256k1_n] ok a b x r by blast
qed

text \<open>
  Claim C7, as amended.  For scalars \<open>a, b\<close> in \<open>[0, n)\<close> and every shift \<open>s\<close> with
  \<open>bits(n) < s\<close> and \<open>s div GMP_NUMB_BITS < 2 * limbs(n)\<close>, \<^verbatim>\<open>sc_mulshift(a, b, s)\<close> returns
  exactly \<open>round(a * b / 2 ^ s)\<close>: the quotient \<open>a * b div 2 ^ s\<close> plus the discarded bit at
  position \<open>s - 1\<close>; and the result fits in \<open>limbs(n)\<close> words.
\<close>

theorem sc_mulshift_rounds:
  assumes ok: "sc_ok sc" and a: "a < sc_n sc" and b: "b < sc_n sc"
    and s: "sc_bits sc < s" and s2: "s div numb_bits sc < 2 * sc_limbs sc"
  shows "sc_mulshift sc a b s = Some (nat (round (real (a * b) / 2 ^ s)))
       \<and> nat (round (real (a * b) / 2 ^ s)) = a * b div 2 ^ s + (a * b div 2 ^ (s - 1)) mod 2
       \<and> nat (round (real (a * b) / 2 ^ s)) < 2 ^ (numb_bits sc * sc_limbs sc)"
proof -
  let ?v = "a * b"
  have s0: "0 < s" using s by simp
  have "real ?v / 2 ^ s + 1 / 2 = real (?v + 2 ^ (s - 1)) / real (2 ^ s)"
  proof -
    obtain t where t: "s = Suc t" using s0 by (cases s) auto
    show ?thesis by (simp add: t field_simps)
  qed
  then have "round (real ?v / 2 ^ s) = \<lfloor>real (?v + 2 ^ (s - 1)) / real (2 ^ s)\<rfloor>"
    by (simp add: round_def)
  also have "\<dots> = int ((?v + 2 ^ (s - 1)) div 2 ^ s)"
    by (rule floor_divide_of_nat_eq)
  finally have r: "nat (round (real ?v / 2 ^ s)) = (?v + 2 ^ (s - 1)) div 2 ^ s" by simp
  have e: "(?v + 2 ^ (s - 1)) div 2 ^ s = ?v div 2 ^ s + (?v div 2 ^ (s - 1)) mod 2"
    by (rule round_shift [OF s0])
  have bits0: "0 < sc_bits sc" using ok by (simp add: sc_ok_def)
  have ab: "a < 2 ^ sc_bits sc" "b < 2 ^ sc_bits sc" using a b ok by (simp_all add: sc_ok_def)
  have "?v div 2 ^ s + 1 < 2 ^ sc_bits sc" by (rule mulshift_quot_small [OF ab s bits0])
  moreover have "(2::nat) ^ sc_bits sc \<le> 2 ^ (numb_bits sc * sc_limbs sc)"
    using sc_ok_bits_le [OF ok] by (simp add: power_increasing)
  moreover have "(?v div 2 ^ (s - 1)) mod 2 \<le> 1" by simp
  ultimately have lt: "?v div 2 ^ s + (?v div 2 ^ (s - 1)) mod 2 < 2 ^ (numb_bits sc * sc_limbs sc)"
    by linarith
  show ?thesis using sc_mulshift_correct [OF ok a b s s2] lt by (simp only: r e)
qed

text \<open>Witness for C7: \<open>round(3 * 2 ^ 255 / 2 ^ 257) = 1\<close> on the scalar field of secp256k1.\<close>

theorem sc_mulshift_rounds_witness:
  "sc_ok q256k1 \<and> 3 < sc_n q256k1 \<and> 2 ^ 255 < sc_n q256k1
   \<and> sc_bits q256k1 < 257 \<and> 257 div numb_bits q256k1 < 2 * sc_limbs q256k1
   \<and> sc_mulshift q256k1 3 (2 ^ 255) 257 = Some 1"
proof -
  have ok: "sc_ok q256k1" using q256k1_ok by simp
  have a: "3 < sc_n q256k1" using q256k1_ok by simp
  have b: "2 ^ 255 < sc_n q256k1" using q256k1_ok by simp
  have s: "sc_bits q256k1 < 257" by (simp add: q256k1_fields)
  have s2: "257 div numb_bits q256k1 < 2 * sc_limbs q256k1" by (simp add: q256k1_fields)
  have "nat (round (real (3 * 2 ^ 255) / 2 ^ 257)) = 3 * 2 ^ 255 div 2 ^ 257 + (3 * 2 ^ 255 div 2 ^ (257 - 1)) mod 2"
    using sc_mulshift_rounds [OF ok a b s s2] by blast
  then have "nat (round (real (3 * 2 ^ 255) / 2 ^ 257)) = 1" by simp
  then show ?thesis using sc_mulshift_rounds [OF ok a b s s2] ok a b s s2 by simp
qed

text \<open>
  Counterexample to C7 as stated (every shift above \<open>bits(n)\<close>): on the scalar field of
  secp256k1 the shift 512 exceeds 256 bits, yet \<^verbatim>\<open>rn -= limbs\<close> leaves \<open>rn = 0\<close> and the
  assertion \<^verbatim>\<open>rn > 0\<close> stops the call.
\<close>

theorem sc_mulshift_large_shift_counterexample:
  "sc_ok q256k1 \<and> 1 < sc_n q256k1 \<and> sc_bits q256k1 < 512 \<and> sc_mulshift q256k1 1 1 512 = None"
proof -
  have "sc_mulshift q256k1 1 1 512 = None"
    by (simp add: sc_mulshift_def q256k1_fields Let_def)
  then show ?thesis using q256k1_ok by (simp add: q256k1_fields)
qed

lemma byte_lt_256: "unat (x::byte) < 256"
  using unsigned_less [of x, where ?'a = nat] by simp

lemma unat_ucast_byte: "unat (ucast (x::byte) :: 32 word) = unat x"
proof -
  have "unat x < 2 ^ 32" using byte_lt_256 [of x] by simp
  then have "take_bit 32 (unat x) = unat x" by (simp only: take_bit_nat_eq_self)
  then show ?thesis by (simp add: unsigned_ucast_eq)
qed

lemma word32_flag: "unat (w :: 32 word) = (if c then 1 else 0) \<Longrightarrow> w = (if c then 1 else 0)"
  by (cases c) (simp_all add: word_unat_eq_iff)

lemma borrow_div: "a < (256::nat) \<Longrightarrow> b < 256 \<Longrightarrow> a < b
    \<Longrightarrow> (a + 4294967296 - b) div 2147483648 = Suc 0"
  by (rule div_nat_eqI) simp_all

lemma flag_lt: "drop_bit 31 ((ucast (x::byte) :: 32 word) - ucast (y::byte)) = (if x < y then 1 else 0)"
proof -
  let ?X = "ucast x :: 32 word" and ?Y = "ucast y :: 32 word"
  have X: "unat ?X = unat x" and Y: "unat ?Y = unat y" by (rule unat_ucast_byte)+
  have bx: "unat x < 256" and bz: "unat y < 256" by (rule byte_lt_256)+
  have "unat (drop_bit 31 (?X - ?Y)) = unat (?X - ?Y) div 2 ^ 31"
    by (simp only: unat_drop_bit_eq) (simp only: drop_bit_eq_div)
  also have "\<dots> = (if unat x < unat y then 1 else 0)"
    using bx bz by (simp add: unat_sub_if_size X Y word_size borrow_div)
  finally have "unat (drop_bit 31 (?X - ?Y)) = (if x < y then 1 else 0)"
    by (simp add: word_less_nat_alt)
  then show ?thesis by (rule word32_flag)
qed

lemma byte_xor_zero: "((x::byte) XOR y = 0) = (x = y)"
proof
  assume a: "x XOR y = 0"
  have "x XOR (x XOR y) = y" by (simp only: xor.assoc [symmetric] xor_self_eq xor.left_neutral)
  with a show "x = y" by simp
qed simp

lemma flag_eq: "drop_bit 31 (((ucast (x::byte) :: 32 word) XOR ucast (y::byte)) - 1) = (if x = y then 1 else 0)"
proof -
  let ?Z = "ucast (x XOR y) :: 32 word"
  have Z: "(ucast x :: 32 word) XOR ucast y = ?Z"
    by (simp add: word_eq_iff_unsigned [where ?'a = nat] unsigned_xor_eq unat_ucast_byte)
  have uz: "unat ?Z = unat (x XOR y)" by (rule unat_ucast_byte)
  have bz: "unat (x XOR y) < 256" by (rule byte_lt_256)
  have z0: "(unat (x XOR y) = 0) = (x = y)" by (simp add: unat_0_iff byte_xor_zero)
  have "unat (drop_bit 31 (?Z - 1)) = unat (?Z - 1) div 2 ^ 31"
    by (simp only: unat_drop_bit_eq) (simp only: drop_bit_eq_div)
  also have "\<dots> = (if unat (x XOR y) = 0 then 1 else 0)"
    using bz by (simp add: unat_sub_if_size uz word_size)
  finally have "unat (drop_bit 31 (?Z - 1)) = (if x = y then 1 else 0)"
    by (simp add: z0)
  then show ?thesis unfolding Z by (rule word32_flag)
qed


lemma le_val_append: "le_val (xs @ ys) = le_val xs + 256 ^ length xs * le_val ys"
  by (induction xs) (simp_all add: algebra_simps)

lemma be_val_Cons: "be_val (x # xs) = unat x * 256 ^ length xs + be_val xs"
  by (simp add: be_val_def le_val_append)

lemma be_val_lt: "be_val xs < 256 ^ length xs"
  using le_val_lt [of "rev xs"] by (simp add: be_val_def)

lemma msb_compare:
  assumes "length xs = length ys"
  shows "(be_val (x # xs) < be_val (y # ys)) = (x < y \<or> (x = y \<and> be_val xs < be_val ys))"
proof -
  let ?B = "(256::nat) ^ length xs"
  have bx: "be_val xs < ?B" by (rule be_val_lt)
  have bz: "be_val ys < ?B" using be_val_lt [of ys] assms by simp
  have e: "be_val (x # xs) = unat x * ?B + be_val xs" "be_val (y # ys) = unat y * ?B + be_val ys"
    using assms by (simp_all add: be_val_Cons)
  consider "unat x < unat y" | "unat x = unat y" | "unat y < unat x" by linarith
  then show ?thesis
  proof cases
    case 1
    then have "unat x + 1 \<le> unat y" by simp
    then have "(unat x + 1) * ?B \<le> unat y * ?B" by (rule mult_le_mono1)
    then have "be_val (x # xs) < be_val (y # ys)" using bx unfolding e by (simp add: algebra_simps)
    then show ?thesis using 1 by (simp add: word_less_nat_alt)
  next
    case 2
    then have "x = y" by (simp add: word_unat_eq_iff)
    then show ?thesis using assms unfolding e by simp
  next
    case 3
    then have "unat y + 1 \<le> unat x" by simp
    then have "(unat y + 1) * ?B \<le> unat x * ?B" by (rule mult_le_mono1)
    then have "\<not> be_val (x # xs) < be_val (y # ys)" using bz unfolding e by (simp add: algebra_simps)
    then show ?thesis using 3 by (auto simp add: word_less_nat_alt)
  qed
qed

lemma bytes_lt_step_dead: "l = 0 \<or> l = 1 \<Longrightarrow> bytes_lt_step (0, l) ab = (0, l)"
  by (auto simp add: bytes_lt_step_def Let_def)

lemma bytes_lt_step_live:
  "bytes_lt_step (1, l) (x, y) = ((if x = y then 1 else 0), (if x < y then 1 else 0))"
  unfolding bytes_lt_step_def Let_def fst_conv snd_conv flag_lt flag_eq by simp

lemma bytes_lt_fold_dead:
  "l = 0 \<or> l = 1 \<Longrightarrow> foldl bytes_lt_step (0, l) ps = (0, l)"
  by (induction ps) (simp_all add: bytes_lt_step_dead)

lemma bytes_lt_fold_live:
  "foldl bytes_lt_step (1, 0) ps =
     ((if map fst ps = map snd ps then 1 else 0),
      (if be_val (map fst ps) < be_val (map snd ps) then 1 else 0))"
proof (induction ps)
  case Nil
  show ?case by (simp add: be_val_def)
next
  case (Cons ab ps)
  obtain x y where ab: "ab = (x, y)" by (cases ab)
  have len: "length (map fst ps) = length (map snd ps)" by simp
  have cmp: "(be_val (x # map fst ps) < be_val (y # map snd ps))
      = (x < y \<or> (x = y \<and> be_val (map fst ps) < be_val (map snd ps)))"
    by (rule msb_compare [OF len])
  show ?case
  proof (cases "x = y")
    case True
    then show ?thesis using Cons cmp by (simp add: ab bytes_lt_step_live)
  next
    case False
    then show ?thesis using cmp by (simp add: ab bytes_lt_step_live bytes_lt_fold_dead)
  qed
qed

lemma map_nth_take: "len \<le> length a \<Longrightarrow> map ((!) a) [0..<len] = take len a"
  by (simp add: list_eq_iff_nth_eq)

lemma final_flag:
  "(A = B \<Longrightarrow> \<not> L) \<Longrightarrow>
     (if L then 1 else 0) AND ((if A = B then 1 else 0) XOR 1) = (if L then (1::32 word) else 0)"
  by (cases "A = B"; cases L) simp_all

lemma bytes_lt_correct:
  assumes "len \<le> length a" "len \<le> length b" "e = 1 \<or> e = - 1"
  shows "(bytes_lt a b len e \<noteq> 0) = (bytes_val e (take len a) < bytes_val e (take len b))"
proof -
  define order where "order = (if e = - 1 then rev [0..<len] else [0..<len])"
  define ps where "ps = map (\<lambda>i. (a ! i, b ! i)) order"
  have f: "foldl (\<lambda>s i. bytes_lt_step s (a ! i, b ! i)) (1, 0) order = foldl bytes_lt_step (1, 0) ps"
    by (simp add: ps_def foldl_map)
  have A: "map fst ps = (if e = - 1 then rev (take len a) else take len a)"
    using assms(1) by (simp add: ps_def order_def comp_def rev_map [symmetric] map_nth_take)
  have B: "map snd ps = (if e = - 1 then rev (take len b) else take len b)"
    using assms(2) by (simp add: ps_def order_def comp_def rev_map [symmetric] map_nth_take)
  have v: "(be_val (map fst ps) < be_val (map snd ps))
      = (bytes_val e (take len a) < bytes_val e (take len b))"
    using assms(3) by (auto simp add: A B bytes_val_def be_val_def)
  have "bytes_lt a b len e =
      snd (foldl bytes_lt_step (1, 0) ps) AND (fst (foldl bytes_lt_step (1, 0) ps) XOR 1)"
    unfolding bytes_lt_def Let_def order_def [symmetric] f ..
  also have "\<dots> = (if be_val (map fst ps) < be_val (map snd ps) then 1 else 0)"
    unfolding bytes_lt_fold_live fst_conv snd_conv
  proof (rule final_flag)
    assume e: "map fst ps = map snd ps"
    show "\<not> be_val (map fst ps) < be_val (map snd ps)" unfolding e by simp
  qed
  finally show ?thesis by (simp add: v)
qed

lemma unat_of_nat_byte: "unat (of_nat m :: byte) = m mod 256"
  by (simp add: unat_of_nat)

lemma le_bytes_Suc: "le_bytes (Suc n) a = of_nat (a mod 256) # le_bytes n (a div 256)"
proof -
  have "[0..<Suc n] = 0 # map Suc [0..<n]" by (simp add: upt_conv_Cons map_Suc_upt del: upt_Suc)
  then show ?thesis
    by (simp add: le_bytes_def comp_def div_mult2_eq del: upt_Suc)
qed

lemma length_le_bytes: "length (le_bytes n a) = n"
  by (simp add: le_bytes_def)

lemma le_val_le_bytes: "le_val (le_bytes n a) = a mod 256 ^ n"
proof (induction n arbitrary: a)
  case 0
  show ?case by (simp add: le_bytes_def)
next
  case (Suc n)
  have "a mod (256 * 256 ^ n) = a mod 256 + 256 * (a div 256 mod 256 ^ n)"
    by (simp add: mod_mult2_eq)
  then show ?case by (simp add: le_bytes_Suc Suc unat_of_nat_byte)
qed

lemma fe_ok_P: "fe_ok fe \<Longrightarrow> 2 < fe_P fe"
  by (simp add: fe_ok_def fe_P_def)

lemma fe_ok_sc:
  assumes "fe_ok fe"
  shows "sc_ok (fe_sc fe)" "sc_n (fe_sc fe) = fe_p fe" "sc_bits (fe_sc fe) = fe_bits fe"
    "sc_endian (fe_sc fe) = fe_endian fe" "sc_limbs (fe_sc fe) = fe_limbs fe"
    "sc_size (fe_sc fe) = fe_size fe" "sc_raw (fe_sc fe) = fe_raw fe" "prime_nat (fe_p fe)"
  using assms unfolding fe_ok_def by simp_all

lemma fe_add_eq: "fe_add fe a b = (a + b) mod fe_P fe"
  by (simp add: fe_add_def backend_add_def backend_carry_def Let_def)

lemma fe_sub_eq: "fe_sub fe a b = (a - b) mod fe_P fe"
  by (simp add: fe_sub_def backend_sub_def backend_carry_def Let_def)

lemma fe_neg_eq: "fe_neg fe a = (- a) mod fe_P fe"
  by (simp add: fe_neg_def backend_opp_def backend_carry_def Let_def)

lemma fe_mul_eq: "fe_mul fe a b = (a * b) mod fe_P fe"
  by (simp add: fe_mul_def backend_mul_def)

lemma fe_sqr_eq: "fe_sqr fe a = (a * a) mod fe_P fe"
  by (simp add: fe_sqr_def backend_square_def)

lemma fe_select_eq: "fe_select fe a b flag = (if flag then b else a)"
  by (simp add: fe_select_def backend_selectznz_def)

lemma fe_elem_mod: "fe_ok fe \<Longrightarrow> fe_elem fe (x mod fe_P fe)"
  using fe_ok_P [of fe] by (simp add: fe_elem_def)

lemma fe_elem_id: "fe_elem fe a \<Longrightarrow> a mod fe_P fe = a"
  by (simp add: fe_elem_def)

lemma fe_ok_size: "fe_ok fe \<Longrightarrow> fe_p fe < 256 ^ fe_size fe"
proof -
  assume ok: "fe_ok fe"
  let ?sc = "fe_sc fe"
  have s: "sc_ok ?sc" and n: "sc_n ?sc = fe_p fe" and z: "fe_size fe = sc_size ?sc"
    using fe_ok_sc [OF ok] by simp_all
  have "sc_n ?sc < 2 ^ sc_bits ?sc" using s by (simp add: sc_ok_def)
  moreover have "sc_bits ?sc \<le> 8 * sc_size ?sc" using s by (simp add: sc_ok_def)
  then have "(2::nat) ^ sc_bits ?sc \<le> 2 ^ (8 * sc_size ?sc)" by (intro power_increasing) simp_all
  ultimately show ?thesis unfolding n z pow256 by linarith
qed

lemma fe_ok_size_pos:
  assumes ok: "fe_ok fe"
  shows "0 < fe_size fe"
proof -
  have "0 < sc_bits (fe_sc fe)" "fe_size fe = (sc_bits (fe_sc fe) + 7) div 8"
    using fe_ok_sc [OF ok] by (simp_all add: sc_ok_def)
  then show ?thesis by simp
qed

lemma le_val_zero_iff: "(le_val bs = 0) = (\<forall>b\<in>set bs. b = 0)"
  by (induction bs) (simp_all add: unat_eq_0)

lemma fold_or_zero_iff:
  "(foldl (\<lambda>z b. z OR unat (b::byte)) z0 bs = 0) = (z0 = 0 \<and> (\<forall>b\<in>set bs. b = 0))"
  by (induction bs arbitrary: z0) (auto simp add: or_eq_0_iff unat_eq_0)

lemma to_bytes_val:
  assumes ok: "fe_ok fe"
  shows "le_val (backend_to_bytes fe a) = nat (a mod fe_P fe)"
proof -
  have "a mod fe_P fe < fe_P fe" "0 \<le> a mod fe_P fe" using fe_ok_P [OF ok] by simp_all
  then have "nat (a mod fe_P fe) < fe_p fe" by (simp add: fe_P_def nat_less_iff)
  then have "nat (a mod fe_P fe) < 256 ^ fe_size fe" using fe_ok_size [OF ok] by linarith
  then show ?thesis by (simp add: backend_to_bytes_def le_val_le_bytes)
qed

lemma fe_is_zero_iff:
  assumes ok: "fe_ok fe"
  shows "fe_is_zero fe a = (a mod fe_P fe = 0)"
proof -
  have nn: "0 \<le> a mod fe_P fe" using fe_ok_P [OF ok] by simp
  have "(le_val (backend_to_bytes fe a) = 0) = (a mod fe_P fe = 0)"
    using nn by (simp add: to_bytes_val [OF ok])
  then have "(foldl (\<lambda>z b. z OR unat b) 0 (backend_to_bytes fe a) = 0) = (a mod fe_P fe = 0)"
    by (simp add: fold_or_zero_iff le_val_zero_iff)
  moreover have "(nat (a mod fe_P fe) = 0) = (a mod fe_P fe = 0)" using nn by simp
  ultimately show ?thesis by (simp add: fe_is_zero_def backend_nonzero_def)
qed

lemma fe_is_zero_elem: "fe_ok fe \<Longrightarrow> fe_elem fe a \<Longrightarrow> fe_is_zero fe a = (a = 0)"
  by (simp add: fe_is_zero_iff fe_elem_id)

lemma fe_equal_iff:
  assumes ok: "fe_ok fe"
  shows "fe_equal fe a b = (a mod fe_P fe = b mod fe_P fe)"
proof -
  have "fe_equal fe a b = ((a - b) mod fe_P fe = 0)"
    by (simp add: fe_equal_def backend_sub_def backend_carry_def fe_is_zero_iff [OF ok])
  then show ?thesis by (simp add: mod_eq_0_iff_dvd mod_eq_dvd_iff)
qed

lemma fe_equal_elem: "fe_ok fe \<Longrightarrow> fe_elem fe a \<Longrightarrow> fe_elem fe b \<Longrightarrow> fe_equal fe a b = (a = b)"
  by (simp add: fe_equal_iff fe_elem_id)

lemma le_bytes_hd: "0 < n \<Longrightarrow> unat (le_bytes n a ! 0) = a mod 256"
  by (cases n) (simp_all add: le_bytes_Suc unat_of_nat_byte)

lemma fe_is_odd_iff:
  assumes ok: "fe_ok fe"
  shows "fe_is_odd fe a = (a mod fe_P fe mod 2 = 1)"
proof -
  have nn: "0 \<le> a mod fe_P fe" using fe_ok_P [OF ok] by simp
  have "unat (backend_to_bytes fe a ! 0) mod 2 = nat (a mod fe_P fe) mod 2"
    unfolding backend_to_bytes_def le_bytes_hd [OF fe_ok_size_pos [OF ok]]
    by (simp add: mod_mod_cancel)
  moreover have "(nat (a mod fe_P fe) mod 2 = 1) = (a mod fe_P fe mod 2 = 1)"
    using nn by (metis even_nat_iff odd_iff_mod_2_eq_one)
  ultimately show ?thesis by (simp add: fe_is_odd_def backend_from_montgomery_def)
qed

lemma prime_nat_dvd:
  assumes p: "prime_nat p" and d: "d dvd p"
  shows "d = 1 \<or> d = p"
proof -
  have p1: "1 < p" and np: "\<forall>m\<in>{2..<p}. \<not> m dvd p" using p by (simp_all add: prime_nat_def)
  have "d \<le> p" using d p1 by (intro dvd_imp_le) simp_all
  moreover have "d \<noteq> 0" using d p1 by (cases "d = 0") simp_all
  moreover have "\<not> (2 \<le> d \<and> d < p)" using np d by auto
  ultimately show ?thesis by linarith
qed

lemma prime_nat_coprime:
  assumes p: "prime_nat p" and a: "\<not> p dvd a"
  shows "coprime p a"
proof -
  have "gcd p a dvd p" by simp
  then have "gcd p a = 1 \<or> gcd p a = p" by (rule prime_nat_dvd [OF p])
  moreover have "gcd p a \<noteq> p"
  proof
    assume "gcd p a = p"
    then have "p dvd a" by (metis gcd_dvd2)
    then show False using a by simp
  qed
  ultimately show ?thesis by (simp add: coprime_iff_gcd_eq_1)
qed

lemma euclid_nat:
  assumes p: "prime_nat p" and d: "p dvd a * b"
  shows "p dvd a \<or> p dvd b"
proof (cases "p dvd a")
  case True
  then show ?thesis by simp
next
  case False
  then have "coprime p a" by (rule prime_nat_coprime [OF p])
  then have "p dvd b" using d by (simp add: coprime_dvd_mult_right_iff)
  then show ?thesis by simp
qed

lemma euclid_int:
  assumes p: "prime_nat p" and d: "int p dvd a * b"
  shows "int p dvd a \<or> int p dvd b"
proof -
  have "p dvd nat \<bar>a\<bar> * nat \<bar>b\<bar>" using d by (simp add: dvd_nat_abs_iff nat_abs_mult_distrib [symmetric])
  then have "p dvd nat \<bar>a\<bar> \<or> p dvd nat \<bar>b\<bar>" by (rule euclid_nat [OF p])
  then show ?thesis by (simp add: dvd_nat_abs_iff)
qed

lemma prime_dvd_binomial:
  assumes p: "prime_nat p" and k: "0 < k" "k < p"
  shows "p dvd (p choose k)"
proof -
  have "k * (p choose k) = p * ((p - 1) choose (k - 1))" using k(1) by (rule times_binomial_minus1_eq)
  then have "p dvd k * (p choose k)" by simp
  then have "p dvd k \<or> p dvd (p choose k)" by (rule euclid_nat [OF p])
  moreover have "\<not> p dvd k" using k by (auto dest: dvd_imp_le)
  ultimately show ?thesis by simp
qed

lemma freshman_step:
  assumes p: "prime_nat p"
  shows "(a + 1) ^ p mod p = (a ^ p + 1) mod p"
proof -
  have p1: "1 < p" using p by (simp add: prime_nat_def)
  let ?f = "\<lambda>k. (p choose k) * a ^ k"
  have "(a + 1) ^ p = (\<Sum>k\<le>p. ?f k)" using binomial [of a 1 p] by simp
  also have "{..p} = insert 0 (insert p {1..<p})" using p1 by auto
  also have "(\<Sum>k\<in>insert 0 (insert p {1..<p}). ?f k) = ?f 0 + (?f p + (\<Sum>k\<in>{1..<p}. ?f k))"
    using p1 by simp
  finally have e: "(a + 1) ^ p = (a ^ p + 1) + (\<Sum>k\<in>{1..<p}. ?f k)" by simp
  have "p dvd (\<Sum>k\<in>{1..<p}. ?f k)"
    by (rule dvd_sum) (simp add: prime_dvd_binomial [OF p])
  then obtain m where m: "(\<Sum>k\<in>{1..<p}. ?f k) = p * m" by (auto simp add: dvd_def)
  show ?thesis unfolding e m by simp
qed

lemma fermat_nat_pow:
  assumes p: "prime_nat p"
  shows "a ^ p mod p = a mod p"
proof (induction a)
  case 0
  have "0 < p" using p by (simp add: prime_nat_def)
  then show ?case by (simp add: zero_power)
next
  case (Suc a)
  have "Suc a ^ p mod p = (a ^ p + 1) mod p" using freshman_step [OF p, of a] by simp
  also have "\<dots> = (a ^ p mod p + 1) mod p" by (simp add: mod_simps)
  also have "\<dots> = Suc a mod p" unfolding Suc.IH by (simp add: mod_simps)
  finally show ?case .
qed

lemma fermat_nat:
  assumes p: "prime_nat p" and a: "\<not> p dvd a"
  shows "a ^ (p - 1) mod p = 1"
proof -
  have p1: "1 < p" using p by (simp add: prime_nat_def)
  have a0: "0 < a" using a by (cases "a = 0") simp_all
  have ge: "1 \<le> a ^ (p - 1)" using a0 by simp
  have pw: "a ^ p = a * a ^ (p - 1)" using p1 by (cases p) simp_all
  have "(a * a ^ (p - 1)) mod p = (a * 1) mod p" using fermat_nat_pow [OF p, of a] pw by simp
  then have "p dvd a * a ^ (p - 1) - a * 1" using ge
    by (intro mod_eq_dvd_iff_nat [THEN iffD1]) simp_all
  then have "p dvd a * (a ^ (p - 1) - 1)" by (simp add: right_diff_distrib')
  then have "p dvd a ^ (p - 1) - 1" using euclid_nat [OF p] a by blast
  then obtain m where m: "a ^ (p - 1) - 1 = p * m" by (auto simp add: dvd_def)
  then have "a ^ (p - 1) = 1 + p * m" using ge by linarith
  moreover have "(1 + p * m) mod p = 1 mod p" by (rule mod_mult_self2)
  moreover have "1 mod p = 1" using p1 by simp
  ultimately show ?thesis by (simp only:)
qed

lemma fermat_int:
  assumes p: "prime_nat p" and a: "a mod int p \<noteq> 0"
  shows "a ^ (p - 1) mod int p = 1"
proof -
  have p1: "1 < p" using p by (simp add: prime_nat_def)
  define b where "b = nat (a mod int p)"
  have b: "int b = a mod int p" using p1 by (simp add: b_def)
  have "\<not> p dvd b"
  proof
    assume "p dvd b"
    then have "int p dvd int b" by (simp only: int_dvd_int_iff)
    then have "int p dvd a mod int p" by (simp only: b)
    then show False using a by (simp add: dvd_mod_iff mod_eq_0_iff_dvd)
  qed
  then have f: "b ^ (p - 1) mod p = 1" by (rule fermat_nat [OF p])
  have "a ^ (p - 1) mod int p = (a mod int p) ^ (p - 1) mod int p" by (simp add: power_mod)
  also have "\<dots> = int (b ^ (p - 1) mod p)" unfolding b [symmetric] by (simp add: zmod_int)
  finally show ?thesis unfolding f by simp
qed

lemma prime_nat_odd: "prime_nat p \<Longrightarrow> 2 < p \<Longrightarrow> odd p"
  using prime_nat_dvd [of p 2] by auto

lemma bezw_inverse:
  assumes c: "coprime x m" and m: "1 < m"
  shows "(int x * fst (bezw x m)) mod int m = 1"
proof -
  have "fst (bezw x m) * int x + snd (bezw x m) * int m = int (gcd x m)" by (rule bezw_aux [symmetric])
  then have "int x * fst (bezw x m) = 1 + (- snd (bezw x m)) * int m"
    using c by (simp add: algebra_simps)
  moreover have "(1 + (- snd (bezw x m)) * int m) mod int m = 1 mod int m" by (rule mod_mult_self1)
  moreover have "1 mod int m = 1" using m by simp
  ultimately show ?thesis by (simp only:)
qed

lemma fe_ok_bytes_fit:
  assumes ok: "fe_ok fe"
  shows "8 * fe_size fe \<le> numb_bits (fe_sc fe) * fe_limbs fe"
proof -
  let ?w = "numb_bits (fe_sc fe)" and ?b = "fe_bits fe"
  have s: "sc_ok (fe_sc fe)" by (rule fe_ok_sc(1) [OF ok])
  have d: "8 dvd ?w" using ok by (simp add: fe_ok_def)
  have w: "0 < ?w" using s by (simp add: sc_ok_def)
  have l: "fe_limbs fe = (?b + ?w - 1) div ?w" and z: "fe_size fe = (?b + 7) div 8" and b: "0 < ?b"
    using s fe_ok_sc [OF ok] by (simp_all add: sc_ok_def)
  have ge: "?b \<le> ?w * fe_limbs fe" unfolding l by (rule ceil_mult_ge [OF w])
  obtain k where k: "?w = 8 * k" using d by (auto simp add: dvd_def)
  have "(?b + 7) div 8 \<le> (8 * (k * fe_limbs fe) + 7) div 8"
    using ge unfolding k by (intro div_le_mono) simp
  also have "\<dots> = k * fe_limbs fe" by simp
  finally show ?thesis unfolding z k by simp
qed

lemma bytes_val_export:
  assumes e: "e = 1 \<or> e = - 1" and a: "a < 2 ^ (w * an)" "a < 256 ^ len"
  shows "bytes_val e (mpn_export w len a an e) = a"
  using e a by (auto simp add: bytes_val_def mpn_export_def Let_def be_val_def le_val_le_bytes limbs_val_id)

lemma length_mpn_export: "length (mpn_export w len a an e) = len"
  by (simp add: mpn_export_def Let_def length_le_bytes)

lemma sc_ok_size: "sc_ok sc \<Longrightarrow> sc_n sc < 256 ^ sc_size sc"
proof -
  assume s: "sc_ok sc"
  have "sc_n sc < 2 ^ sc_bits sc" using s by (simp add: sc_ok_def)
  moreover have "sc_bits sc \<le> 8 * sc_size sc" using s by (simp add: sc_ok_def)
  then have "(2::nat) ^ sc_bits sc \<le> 2 ^ (8 * sc_size sc)" by (intro power_increasing) simp_all
  ultimately show ?thesis unfolding pow256 by linarith
qed

lemma sc_raw_val:
  assumes s: "sc_ok sc"
  shows "bytes_val (sc_endian sc) (take (sc_size sc) (sc_raw sc)) = sc_n sc"
proof -
  have r: "sc_raw sc = mpn_export (numb_bits sc) (sc_size sc) (sc_n sc) (sc_limbs sc) (sc_endian sc)"
    and e: "sc_endian sc = 1 \<or> sc_endian sc = - 1" using s by (simp_all add: sc_ok_def)
  have "take (sc_size sc) (sc_raw sc) = sc_raw sc" unfolding r by (simp add: length_mpn_export)
  then show ?thesis unfolding r
    using bytes_val_export [OF e sc_ok_n_lt [OF s] sc_ok_size [OF s]] by simp
qed

lemma sc_import_correct:
  assumes s: "sc_ok sc" and len: "sc_size sc \<le> length raw"
  shows "sc_import sc raw =
     (bytes_val (sc_endian sc) (take (sc_size sc) raw) mod 2 ^ (numb_bits sc * sc_limbs sc),
      bytes_val (sc_endian sc) (take (sc_size sc) raw) < sc_n sc)"
proof -
  have e: "sc_endian sc = 1 \<or> sc_endian sc = - 1" using s by (simp add: sc_ok_def)
  have l2: "sc_size sc \<le> length (sc_raw sc)" using s by (simp add: sc_ok_def length_mpn_export)
  show ?thesis
    by (simp add: sc_import_def mpn_import_def limbs_val_def bytes_lt_correct [OF len l2 e]
        sc_raw_val [OF s])
qed

lemma sc_export_import:
  assumes s: "sc_ok sc" and a: "a < sc_n sc"
  shows "bytes_val (sc_endian sc) (sc_export sc a) = a" "length (sc_export sc a) = sc_size sc"
proof -
  have e: "sc_endian sc = 1 \<or> sc_endian sc = - 1" using s by (simp add: sc_ok_def)
  have "a < 256 ^ sc_size sc" using a sc_ok_size [OF s] by linarith
  then show "bytes_val (sc_endian sc) (sc_export sc a) = a"
    unfolding sc_export_def using e sc_ok_lt_limbs [OF s a] by (intro bytes_val_export) simp_all
  show "length (sc_export sc a) = sc_size sc" by (simp add: sc_export_def length_mpn_export)
qed

lemma fe_ok_coprime_shift:
  assumes ok: "fe_ok fe"
  shows "coprime (2 ^ fe_shift fe mod fe_p fe) (fe_p fe)"
proof -
  have p: "prime_nat (fe_p fe)" and p2: "2 < fe_p fe" using ok by (simp_all add: fe_ok_def)
  have "odd (fe_p fe)" by (rule prime_nat_odd [OF p p2])
  then have "coprime (fe_p fe) 2" by (simp add: coprime_right_2_iff_odd)
  then have "coprime (2 ^ fe_shift fe) (fe_p fe)" by (simp add: coprime_commute)
  then show ?thesis using p2 by (simp only: coprime_mod_left_iff) 
qed

lemma mont_decode:
  assumes ok: "fe_ok fe"
  shows "backend_of_montgomery_limbs fe ((v * 2 ^ fe_shift fe) mod fe_p fe) = int v mod fe_P fe"
proof -
  let ?p = "fe_p fe" and ?R = "2 ^ fe_shift fe mod fe_p fe"
  let ?i = "fst (bezw ?R ?p)"
  have p1: "1 < ?p" using ok by (simp add: fe_ok_def)
  have inv: "(int ?R * ?i) mod int ?p = 1" by (rule bezw_inverse [OF fe_ok_coprime_shift [OF ok] p1])
  have R: "int ?R = (2 ^ fe_shift fe) mod int ?p" by (simp add: zmod_int)
  have inv2: "((2 ^ fe_shift fe) * ?i) mod int ?p = 1"
    using inv unfolding R by (simp only: mod_mult_left_eq)
  have "int ((v * 2 ^ fe_shift fe) mod ?p) * ?i mod int ?p
      = ((int v * 2 ^ fe_shift fe) mod int ?p) * ?i mod int ?p"
    by (simp add: zmod_int)
  also have "\<dots> = (int v * ((2 ^ fe_shift fe) * ?i)) mod int ?p"
    by (simp only: mod_mult_left_eq mult.assoc)
  also have "\<dots> = ((int v mod int ?p) * (((2 ^ fe_shift fe) * ?i) mod int ?p)) mod int ?p"
    by (simp only: mod_mult_eq)
  also have "\<dots> = int v mod int ?p" unfolding inv2 by simp
  finally show ?thesis by (simp add: backend_of_montgomery_limbs_def fe_P_def)
qed


lemma fe_ok_guard:
  "fe_ok fe \<Longrightarrow> fe_limbs fe + fe_shift fe div numb_bits (fe_sc fe)
      + (if fe_shift fe mod numb_bits (fe_sc fe) \<noteq> 0 then 1 else 0) \<le> sc_shift (fe_sc fe)"
  unfolding fe_ok_def by (elim conjE)

lemma fe_ok_mont:
  assumes "fe_ok fe" "has_from_montgomery fe"
  shows "fe_size fe = fe_words fe * (field_word_size fe div 8)
         \<or> (fe_bits fe = 224 \<and> field_word_size fe = 64)"
    and "numb_bits (fe_sc fe) = field_word_size fe \<Longrightarrow> fe_limbs fe = fe_words fe"
  using assms unfolding fe_ok_def by blast+

lemma fe_ok_consts:
  assumes "fe_ok fe"
  shows "c_zero fe = 0" "c_one fe = 1" "c_two fe = 2 mod fe_P fe" "c_three fe = 3 mod fe_P fe"
    "c_four fe = 4 mod fe_P fe" "c_mone fe = fe_P fe - 1"
  using assms unfolding fe_ok_def by blast+

lemma mont_align:
  assumes w: "0 < w" and v: "v < 2 ^ (w * l)" and left: "left < w"
  shows "(if left \<noteq> 0 then mpn_lshift w (v * 2 ^ (w * sh)) (l + sh + (if left \<noteq> 0 then 1 else 0)) left
          else (v * 2 ^ (w * sh), 0)) = (v * 2 ^ (w * sh + left), 0)"
proof (cases "left = 0")
  case True
  then show ?thesis by simp
next
  case False
  let ?xn = "l + sh + 1"
  have a: "v * 2 ^ (w * sh) < 2 ^ (w * l) * 2 ^ (w * sh)" using v by simp
  have b: "(2::nat) ^ (w * l) * 2 ^ (w * sh) \<le> 2 ^ (w * ?xn)"
    unfolding power_add [symmetric] by (intro power_increasing) (simp_all add: algebra_simps)
  have x0: "limbs_val w ?xn (v * 2 ^ (w * sh)) = v * 2 ^ (w * sh)"
    using a b by (intro limbs_val_id) linarith
  have "v * 2 ^ (w * sh + left) < 2 ^ (w * l) * 2 ^ (w * sh + left)" using v by simp
  also have "\<dots> \<le> 2 ^ (w * ?xn)"
    unfolding power_add [symmetric] using left by (intro power_increasing) (simp_all add: algebra_simps)
  finally have s: "v * 2 ^ (w * sh + left) < 2 ^ (w * ?xn)" .
  have "mpn_lshift w (v * 2 ^ (w * sh)) ?xn left = (v * 2 ^ (w * sh + left), 0)"
    unfolding mpn_lshift_def Let_def x0 using s by (simp add: power_add algebra_simps)
  then show ?thesis using False by simp
qed

lemma fe_import_correct:
  assumes ok: "fe_ok fe" and len: "fe_size fe \<le> length raw"
    and v: "bytes_val (fe_endian fe) (take (fe_size fe) raw) < 2 ^ (numb_bits (fe_sc fe) * fe_limbs fe)"
  shows "fe_import fe raw =
     Some (int (bytes_val (fe_endian fe) (take (fe_size fe) raw)) mod fe_P fe,
           bytes_val (fe_endian fe) (take (fe_size fe) raw) < fe_p fe)"
proof -
  let ?sc = "fe_sc fe" and ?w = "numb_bits (fe_sc fe)" and ?l = "fe_limbs fe"
  let ?v = "bytes_val (fe_endian fe) (take (fe_size fe) raw)"
  note sc = fe_ok_sc [OF ok]
  have s: "sc_ok ?sc" by (rule sc(1))
  have w: "0 < ?w" using s by (simp add: sc_ok_def)
  have e: "fe_endian fe = 1 \<or> fe_endian fe = - 1" using s sc(4) by (simp add: sc_ok_def)
  have l2: "fe_size fe \<le> length (fe_raw fe)"
    using s unfolding sc(6,7) [symmetric] by (simp add: sc_ok_def length_mpn_export)
  have rv: "bytes_val (fe_endian fe) (take (fe_size fe) (fe_raw fe)) = fe_p fe"
    using sc_raw_val [OF s] unfolding sc by simp
  have ret: "(bytes_lt raw (fe_raw fe) (fe_size fe) (fe_endian fe) \<noteq> 0) = (?v < fe_p fe)"
    unfolding bytes_lt_correct [OF len l2 e] rv ..
  show ?thesis
  proof (cases "has_from_montgomery fe")
    case False
    have tk: "take (fe_size fe) (rev (take (fe_size fe) raw)) = rev (take (fe_size fe) raw)"
      using len by simp
    have "backend_from_bytes fe (rev (take (fe_size fe) raw)) = int (be_val (take (fe_size fe) raw)) mod fe_P fe"
      unfolding backend_from_bytes_def tk by (simp add: be_val_def)
    moreover have "backend_from_bytes fe raw = int (le_val (take (fe_size fe) raw)) mod fe_P fe"
      by (simp add: backend_from_bytes_def)
    ultimately show ?thesis using False e unfolding fe_import_def Let_def ret
      by (auto simp add: bytes_val_def)
  next
    case True
    let ?sh = "fe_shift fe div ?w" and ?left = "fe_shift fe mod ?w"
    let ?xn = "?l + ?sh + (if ?left \<noteq> 0 then 1 else 0)"
    let ?X = "?v * 2 ^ fe_shift fe"
    have g: "?xn \<le> sc_shift ?sc" by (rule fe_ok_guard [OF ok])
    have imp: "mpn_import ?w ?l raw (fe_size fe) (fe_endian fe) = ?v"
      unfolding mpn_import_def by (rule limbs_val_id [OF v])
    have left: "?left < ?w" using w by simp
    have al: "(if ?left \<noteq> 0 then mpn_lshift ?w (?v * 2 ^ (?w * ?sh)) ?xn ?left
               else (?v * 2 ^ (?w * ?sh), 0)) = (?X, 0)"
      using mont_align [OF w v left, of ?sh] by simp
    have "?X < 2 ^ (?w * ?l) * 2 ^ fe_shift fe" using v by simp
    also have "\<dots> \<le> 2 ^ (?w * ?xn)"
    proof -
      have "?w * ?l + fe_shift fe \<le> ?w * ?xn"
      proof (cases "?left = 0")
        case True
        then have "fe_shift fe = ?w * ?sh" by (metis add.right_neutral mult_div_mod_eq)
        then show ?thesis using True by (simp add: algebra_simps)
      next
        case False
        have "fe_shift fe = ?w * ?sh + ?left" by simp
        then have "fe_shift fe \<le> ?w * ?sh + ?w" using left by linarith
        then show ?thesis using False by (simp add: algebra_simps)
      qed
      then show ?thesis unfolding power_add [symmetric] by (intro power_increasing) simp_all
    qed
    also have "\<dots> \<le> 2 ^ (?w * sc_shift ?sc)" using g by (intro power_increasing) simp_all
    finally have Xlt: "?X < 2 ^ (?w * sc_shift ?sc)" .
    have red: "sc_reduce ?sc ?X = Some (?X mod fe_p fe)"
      using sc_reduce_correct [OF s Xlt] unfolding sc by simp
    have chk: "\<not> (?w = field_word_size fe \<and> ?l \<noteq> fe_words fe)"
      using fe_ok_mont(2) [OF ok True] by blast
    have "?X mod fe_p fe < fe_p fe" using ok by (simp add: fe_ok_def)
    then have "?X mod fe_p fe < 2 ^ (?w * ?l)"
      using sc_ok_n_lt [OF s] unfolding sc by linarith
    then have lv: "limbs_val ?w ?l (?X mod fe_p fe) = ?X mod fe_p fe" by (rule limbs_val_id)
    show ?thesis
      unfolding fe_import_def Let_def ret imp al
      using True g chk by (simp add: red lv mont_decode [OF ok])
  qed
qed

lemma unat_and_low: "k \<le> 8 \<Longrightarrow> unat ((z::byte) AND of_nat (2 ^ k - 1)) = unat z mod 2 ^ k"
proof -
  assume k: "k \<le> 8"
  have "(of_nat (2 ^ k - 1) :: byte) = mask k"
    by (simp add: mask_eq_exp_minus_1 of_nat_diff)
  then have a: "z AND of_nat (2 ^ k - 1) = take_bit k z" by (simp only: take_bit_eq_mask)
  have b: "unat (take_bit k z) = take_bit k (unat z)" by (rule unsigned_take_bit_eq)
  show ?thesis unfolding a b by (rule take_bit_eq_mod)
qed

lemma le_val_mask_last:
  assumes n: "length xs = Suc m" and k: "k \<le> 8"
  shows "le_val (xs[m := (xs ! m) AND of_nat (2 ^ k - 1)]) = le_val xs mod (256 ^ m * 2 ^ k)"
proof -
  obtain ys z where xs: "xs = ys @ [z]" using n by (cases xs rule: rev_cases) simp_all
  have m: "length ys = m" using n xs by simp
  have u: "xs[m := (xs ! m) AND of_nat (2 ^ k - 1)] = ys @ [z AND of_nat (2 ^ k - 1)]"
    unfolding xs m [symmetric] by simp
  have lt: "le_val ys < 256 ^ m" using le_val_lt [of ys] m by simp
  have v: "le_val xs = le_val ys + 256 ^ m * unat z" by (simp add: xs le_val_append m)
  have "le_val xs mod (256 ^ m * 2 ^ k) = 256 ^ m * (le_val xs div 256 ^ m mod 2 ^ k) + le_val xs mod 256 ^ m"
    by (rule mod_mult2_eq)
  also have "le_val xs div 256 ^ m = unat z" unfolding v using lt by simp
  also have "le_val xs mod 256 ^ m = le_val ys" unfolding v using lt by simp
  finally have f: "le_val xs mod (256 ^ m * 2 ^ k) = 256 ^ m * (unat z mod 2 ^ k) + le_val ys" .
  have "le_val (ys @ [z AND of_nat (2 ^ k - 1)]) = le_val ys + 256 ^ m * (unat z mod 2 ^ k)"
    by (simp only: le_val_append m le_val.simps unat_and_low [OF k]) simp
  then show ?thesis unfolding u f by simp
qed

lemma be_val_mask_first:
  assumes n: "length xs = Suc m" and k: "k \<le> 8"
  shows "be_val (xs[0 := (xs ! 0) AND of_nat (2 ^ k - 1)]) = be_val xs mod (256 ^ m * 2 ^ k)"
proof -
  have r: "rev (xs[0 := (xs ! 0) AND of_nat (2 ^ k - 1)])
      = (rev xs)[m := (rev xs ! m) AND of_nat (2 ^ k - 1)]"
    using n by (simp add: rev_update rev_nth)
  show ?thesis unfolding be_val_def r using n k by (intro le_val_mask_last) simp_all
qed

lemma bytes_val_mask:
  assumes n: "length xs = Suc m" and k: "k \<le> 8" and e: "e = 1 \<or> e = - 1"
  shows "bytes_val e (if e = - 1 then xs[m := (xs ! m) AND of_nat (2 ^ k - 1)]
                      else xs[0 := (xs ! 0) AND of_nat (2 ^ k - 1)])
         = bytes_val e xs mod 2 ^ (8 * m + k)"
  using e le_val_mask_last [OF n k] be_val_mask_first [OF n k]
  by (auto simp add: bytes_val_def power_add pow256)


lemma low_mask_not_ff:
  assumes r: "0 < r" "r < 8"
  shows "(of_nat (2 ^ r - 1) :: byte) \<noteq> 0xff"
proof
  assume a: "(of_nat (2 ^ r - 1) :: byte) = 0xff"
  have "(2::nat) ^ r \<le> 2 ^ 7" using r by (intro power_increasing) simp_all
  then have lt: "(2::nat) ^ r - 1 < 256" by simp
  have "unat (of_nat (2 ^ r - 1) :: byte) = 2 ^ r - 1"
    unfolding unat_of_nat_byte using lt by simp
  then have "(2::nat) ^ r - 1 = 255" unfolding a by simp
  then show False using \<open>(2::nat) ^ r \<le> 2 ^ 7\<close> by simp
qed

lemma fe_ok_mask:
  assumes ok: "fe_ok fe"
  shows "fe_bits fe mod 8 = 0 \<Longrightarrow> fe_mask fe = 0xff \<and> 8 * fe_size fe = fe_bits fe"
    and "fe_bits fe mod 8 \<noteq> 0 \<Longrightarrow> fe_mask fe \<noteq> 0xff
           \<and> fe_mask fe = of_nat (2 ^ (fe_bits fe mod 8) - 1)
           \<and> fe_size fe = Suc (fe_bits fe div 8)"
proof -
  let ?b = "fe_bits fe"
  have z: "fe_size fe = (?b + 7) div 8"
    using fe_ok_sc [OF ok] by (simp add: sc_ok_def)
  have mk: "fe_mask fe = (if ?b mod 8 = 0 then 0xff else of_nat (2 ^ (8 - (fe_size fe * 8 - ?b)) - 1))"
    using ok unfolding fe_ok_def by (elim conjE)
  show "?b mod 8 = 0 \<Longrightarrow> fe_mask fe = 0xff \<and> 8 * fe_size fe = ?b"
    unfolding mk z by (simp add: mod_eq_0_iff_dvd) presburger
  assume r: "?b mod 8 \<noteq> 0"
  have r8: "?b mod 8 < 8" by simp
  have sz: "(?b + 7) div 8 = Suc (?b div 8)" using r by presburger
  have k: "8 - (Suc (?b div 8) * 8 - ?b) = ?b mod 8" by presburger
  have m: "fe_mask fe = of_nat (2 ^ (?b mod 8) - 1)" unfolding mk z sz k using r by simp
  have "fe_mask fe \<noteq> 0xff" unfolding m using r r8 by (intro low_mask_not_ff) simp_all
  then show "fe_mask fe \<noteq> 0xff \<and> fe_mask fe = of_nat (2 ^ (?b mod 8) - 1) \<and> fe_size fe = Suc (?b div 8)"
    using m z sz by simp
qed

lemma fe_ok_bits_le: "fe_ok fe \<Longrightarrow> fe_bits fe \<le> numb_bits (fe_sc fe) * fe_limbs fe"
  using sc_ok_bits_le [of "fe_sc fe"] fe_ok_sc [of fe] by simp

lemma fe_import_uniform_correct:
  assumes ok: "fe_ok fe" and len: "fe_size fe \<le> length raw"
  shows "fe_import_uniform fe raw =
     Some (int (bytes_val (fe_endian fe) (take (fe_size fe) raw) mod 2 ^ fe_bits fe) mod fe_P fe,
           bytes_val (fe_endian fe) (take (fe_size fe) raw) mod 2 ^ fe_bits fe < fe_p fe)"
proof -
  let ?e = "fe_endian fe" and ?n = "fe_size fe" and ?b = "fe_bits fe"
  let ?V = "bytes_val ?e (take ?n raw)"
  have e: "?e = 1 \<or> ?e = - 1" using fe_ok_sc [OF ok] by (simp add: sc_ok_def)
  have pl: "(2::nat) ^ ?b \<le> 2 ^ (numb_bits (fe_sc fe) * fe_limbs fe)"
    using fe_ok_bits_le [OF ok] by (intro power_increasing) simp_all
  show ?thesis
  proof (cases "?b mod 8 = 0")
    case True
    have mk: "fe_mask fe = 0xff" and b: "8 * ?n = ?b" using fe_ok_mask(1) [OF ok True] by blast+
    have "?V < 2 ^ (8 * ?n)" by (rule bytes_val_take_lt)
    then have V: "?V < 2 ^ ?b" unfolding b .
    then have Vl: "?V < 2 ^ (numb_bits (fe_sc fe) * fe_limbs fe)" using pl by linarith
    have Vm: "?V mod 2 ^ ?b = ?V" using V by simp
    show ?thesis unfolding fe_import_uniform_def Let_def Vm
      by (simp add: mk fe_import_correct [OF ok len Vl] backend_carry_def)
  next
    case False
    have mk: "fe_mask fe \<noteq> 0xff" and mv: "fe_mask fe = of_nat (2 ^ (?b mod 8) - 1)"
      and n: "?n = Suc (?b div 8)" using fe_ok_mask(2) [OF ok False] by blast+
    let ?xs = "take ?n raw"
    let ?tmp = "(if ?e = - 1 then ?xs[?n - 1 := (?xs ! (?n - 1)) AND fe_mask fe]
                 else ?xs[0 := (?xs ! 0) AND fe_mask fe])"
    have lx: "length ?xs = Suc (?b div 8)" using len n by simp
    have k: "?b mod 8 \<le> 8" by simp
    have idx: "?n - 1 = ?b div 8" using n by simp
    have tv: "bytes_val ?e ?tmp = ?V mod 2 ^ ?b"
      unfolding mv idx using bytes_val_mask [OF lx k e] by (simp only: mult_div_mod_eq)
    have tl: "?n \<le> length ?tmp" using len by simp
    have tt: "take ?n ?tmp = ?tmp" using len by simp
    have Vl: "bytes_val ?e (take ?n ?tmp) < 2 ^ (numb_bits (fe_sc fe) * fe_limbs fe)"
    proof -
      have "?V mod 2 ^ ?b < 2 ^ ?b" by simp
      then show ?thesis unfolding tt tv using pl by linarith
    qed
    have "fe_import fe ?tmp = Some (int (?V mod 2 ^ ?b) mod fe_P fe, ?V mod 2 ^ ?b < fe_p fe)"
      using fe_import_correct [OF ok tl Vl] unfolding tt tv .
    then show ?thesis unfolding fe_import_uniform_def Let_def using mk
      by (simp add: backend_carry_def)
  qed
qed

lemma fe_export_correct:
  assumes ok: "fe_ok fe"
  shows "\<exists>raw. fe_export fe a = Some raw \<and> length raw = fe_size fe
           \<and> bytes_val (fe_endian fe) raw = nat (a mod fe_P fe)"
proof -
  have e: "fe_endian fe = 1 \<or> fe_endian fe = - 1" using fe_ok_sc [OF ok] by (simp add: sc_ok_def)
  let ?bs = "backend_to_bytes fe a"
  have l: "length ?bs = fe_size fe" by (simp add: backend_to_bytes_def length_le_bytes)
  have v: "le_val ?bs = nat (a mod fe_P fe)" by (rule to_bytes_val [OF ok])
  have x: "fe_export fe a = Some (if fe_endian fe = 1 then rev ?bs else ?bs)"
  proof (cases "has_from_montgomery fe")
    case True
    then show ?thesis using fe_ok_mont(1) [OF ok True] l
      by (auto simp add: fe_export_def Let_def backend_from_montgomery_def)
  next
    case False
    then show ?thesis by (simp add: fe_export_def Let_def)
  qed
  show ?thesis unfolding x using e l v by (auto simp add: bytes_val_def be_val_def)
qed

lemma fe_pow_loop_elem:
  assumes ok: "fe_ok fe"
  shows "fe_elem fe b \<Longrightarrow> fe_elem fe (fe_pow_loop fe a e i b)"
  by (induction i arbitrary: b) (simp_all add: Let_def fe_sqr_eq fe_mul_eq fe_elem_mod [OF ok])

lemma mod_pow2_Suc: "(e::nat) mod 2 ^ Suc i = (e div 2 ^ i) mod 2 * 2 ^ i + e mod 2 ^ i"
proof -
  have "e mod (2 ^ i * 2) = 2 ^ i * (e div 2 ^ i mod 2) + e mod 2 ^ i" by (rule mod_mult2_eq)
  then show ?thesis by (simp add: mult.commute)
qed

lemma pow_mod_cong:
  assumes "x mod P = y mod (P::int)"
  shows "(x ^ k * c) mod P = (y ^ k * c) mod P"
proof -
  have "x ^ k mod P = y ^ k mod P" using assms by (metis power_mod)
  then show ?thesis by (metis mod_mult_left_eq)
qed

lemma fe_pow_loop_correct:
  assumes w: "0 < numb_bits (fe_sc fe)"
  shows "fe_pow_loop fe a e i b mod fe_P fe = (b ^ (2 ^ i) * a ^ (e mod 2 ^ i)) mod fe_P fe"
proof (induction i arbitrary: b)
  case 0
  show ?case by simp
next
  case (Suc i)
  let ?P = "fe_P fe" and ?bit = "(e div 2 ^ i) mod 2"
  define b' where "b' = (if ?bit = 1 then fe_mul fe (fe_sqr fe b) a else fe_sqr fe b)"
  have st: "fe_pow_loop fe a e (Suc i) b = fe_pow_loop fe a e i b'"
    by (simp add: Let_def b'_def bit_extract [OF w])
  have bm: "b' mod ?P = (b * b * a ^ ?bit) mod ?P"
  proof (cases "?bit = 1")
    case True
    then show ?thesis by (simp add: b'_def fe_mul_eq fe_sqr_eq mod_simps)
  next
    case False
    then have "?bit = 0" by linarith
    then show ?thesis by (simp add: b'_def fe_sqr_eq)
  qed
  have "fe_pow_loop fe a e i b' mod ?P = (b' ^ (2 ^ i) * a ^ (e mod 2 ^ i)) mod ?P" by (rule Suc.IH)
  also have "\<dots> = ((b * b * a ^ ?bit) ^ (2 ^ i) * a ^ (e mod 2 ^ i)) mod ?P"
    by (rule pow_mod_cong [OF bm])
  also have "(b * b * a ^ ?bit) ^ (2 ^ i) * a ^ (e mod 2 ^ i)
      = b ^ (2 ^ Suc i) * a ^ (?bit * 2 ^ i + e mod 2 ^ i)"
    by (simp add: power_mult_distrib power_add power_mult [symmetric] mult.commute power2_eq_square [symmetric])
  finally show ?case unfolding st mod_pow2_Suc [symmetric] .
qed

lemma fe_pow_correct:
  assumes ok: "fe_ok fe"
  shows "fe_pow fe a e = (a ^ (e mod 2 ^ fe_bits fe)) mod fe_P fe"
proof -
  have w: "0 < numb_bits (fe_sc fe)" using fe_ok_sc(1) [OF ok] by (simp add: sc_ok_def)
  have one: "fe_elem fe (c_one fe)" using fe_ok_consts(2) [OF ok] fe_ok_P [OF ok] by (simp add: fe_elem_def)
  have "fe_elem fe (fe_pow fe a e)" unfolding fe_pow_def by (rule fe_pow_loop_elem [OF ok one])
  then have "fe_pow fe a e = fe_pow fe a e mod fe_P fe" by (simp add: fe_elem_id)
  also have "\<dots> = (c_one fe ^ (2 ^ fe_bits fe) * a ^ (e mod 2 ^ fe_bits fe)) mod fe_P fe"
    unfolding fe_pow_def by (rule fe_pow_loop_correct [OF w])
  finally show ?thesis by (simp add: fe_ok_consts(2) [OF ok])
qed

lemma prime_13: "prime_nat 13"
  by (simp add: prime_nat_def atLeastLessThan_upt upt_rec)

lemma sc_set_fields:
  "numb_bits (scalar_field_set w m b e) = w" "sc_endian (scalar_field_set w m b e) = e"
  "sc_bits (scalar_field_set w m b e) = b" "sc_limbs (scalar_field_set w m b e) = (b + w - 1) div w"
  "sc_size (scalar_field_set w m b e) = (b + 7) div 8"
  "sc_shift (scalar_field_set w m b e) = ((b + w - 1) div w + 1) * 2"
  "sc_raw (scalar_field_set w m b e)
     = mpn_export w ((b + 7) div 8) (sc_n (scalar_field_set w m b e)) (MAX_REDUCE_LIMBS w) e"
  by (simp_all add: scalar_field_set_def Let_def)

lemma f13_sc_ok:
  "sc_ok (scalar_field_set 64 [0x0d] 4 e) \<and> sc_n (scalar_field_set 64 [0x0d] 4 e) = 13"
  if "e = 1 \<or> e = - 1"
  by (rule scalar_field_set_ok [OF _ _ _ that]) (simp_all add: be_val_def)

lemma export_13: "e = 1 \<or> e = - 1 \<Longrightarrow> mpn_export 64 (Suc 0) 13 (MAX_REDUCE_LIMBS 64) e = [0x0d]"
  by (auto simp add: mpn_export_def le_bytes_def limbs_val_def MAX_REDUCE_LIMBS_def)

lemma f13_le_fields:
  "fe_bits f13_le = 4" "fe_endian f13_le = - 1" "fe_p f13_le = 13" "fe_size f13_le = 1"
  "fe_sc f13_le = scalar_field_set 64 [0x0d] 4 (- 1)" "has_from_montgomery f13_le = False"
  "fe_limbs f13_le = 1" "fe_raw f13_le = [0x0d]" "fe_mask f13_le = 0x0f" "fe_shift f13_le = 64"
  "c_zero f13_le = 0" "c_one f13_le = 1" "c_two f13_le = 2" "c_three f13_le = 3"
  "c_four f13_le = 4" "c_mone f13_le = 12" "invert_fn f13_le = None" "sqrt_fn f13_le = None"
  "isqrt_fn f13_le = None" "scmul_121666_fn f13_le = None" "has_nonzero f13_le = False"
  "has_carry f13_le = True"
  by (simp_all add: f13_le_def)

lemma f13_le_ok: "fe_ok f13_le"
  unfolding fe_ok_def f13_le_fields fe_P_def sc_set_fields
  using f13_sc_ok [of "- 1"] prime_13 by (simp add: export_13)


lemma m13_fields:
  "mont_fe m13 = f13_le" "mont_sc m13 = scalar_field_set 64 [0x03] 2 (- 1)" "mont_a24 m13 = 8"
  by (simp_all add: m13_def)

lemma m13_sc_ok: "sc_ok (mont_sc m13) \<and> sc_n (mont_sc m13) = 3"
  unfolding m13_fields
  by (rule scalar_field_set_ok) (simp_all add: be_val_def)

lemma m13_ok: "mont_ok m13"
  unfolding mont_ok_def m13_fields f13_le_fields sc_set_fields
  using f13_le_ok m13_sc_ok unfolding m13_fields
  by (simp add: fe_elem_def fe_P_def f13_le_fields)

lemma m13_more:
  "numb_bits (mont_sc m13) = 64" "sc_limbs (mont_sc m13) = 1" "fe_P (mont_fe m13) = 13"
  "fe_bits (mont_fe m13) = 4" "scmul_121666_fn (mont_fe m13) = None"
  "pge_zero m13 = \<lparr> pge_x = 1, pge_z = 0 \<rparr>"
  by (simp_all add: m13_fields sc_set_fields fe_P_def f13_le_fields pge_zero_def fe_zero_def)

lemma m13_ops:
  "fe_add (mont_fe m13) a b = (a + b) mod 13" "fe_sub (mont_fe m13) a b = (a - b) mod 13"
  "fe_mul (mont_fe m13) a b = (a * b) mod 13" "fe_sqr (mont_fe m13) a = (a * a) mod 13"
  "mont_mul_a24 m13 a = (a * 8) mod 13"
  by (simp_all add: fe_add_eq fe_sub_eq fe_mul_eq fe_sqr_eq mont_mul_a24_def m13_more m13_fields(3))

lemma idx4: "rev [0..<4::nat] = [3, 2, 1, 0]"
  by (simp add: upt_rec)

lemma f13_le_zero: "fe_is_zero f13_le 0 = True" "fe_is_zero f13_le 12 = False"
  by (simp_all add: fe_is_zero_def f13_le_fields backend_to_bytes_def le_bytes_def fe_P_def Let_def)

lemma f13_exp: "fst (mpn_sub_1 64 13 (Suc 0) 2) = 11"
  by (simp add: mpn_sub_1_def limbs_val_def Let_def)

lemma f13_le_invert: "fe_invert f13_le 0 = (0, False)" "fe_invert f13_le 12 = (12, True)"
  by (simp_all add: fe_invert_def f13_le_zero f13_exp fe_pow_correct [OF f13_le_ok] f13_le_fields
      sc_set_fields fe_P_def Let_def)

lemma fe_ok_lt_limbs: "fe_ok fe \<Longrightarrow> fe_p fe < 2 ^ (numb_bits (fe_sc fe) * fe_limbs fe)"
  using sc_ok_n_lt [of "fe_sc fe"] fe_ok_sc [of fe] by simp

lemma fe_ok_lt_bits: "fe_ok fe \<Longrightarrow> fe_p fe < 2 ^ fe_bits fe"
  using fe_ok_sc [of fe] by (simp add: sc_ok_def)

lemma fe_invert_ret: "fe_ok fe \<Longrightarrow> snd (fe_invert fe a) = (a mod fe_P fe \<noteq> 0)"
  by (simp add: fe_invert_def Let_def fe_is_zero_iff split: option.splits)

lemma fe_invert_correct:
  assumes ok: "fe_ok fe" and a: "fe_elem fe a"
  shows "fe_elem fe (fst (fe_invert fe a))"
    and "a \<noteq> 0 \<Longrightarrow> (a * fst (fe_invert fe a)) mod fe_P fe = 1"
proof -
  let ?P = "fe_P fe" and ?w = "numb_bits (fe_sc fe)"
  have p: "prime_nat (fe_p fe)" by (rule fe_ok_sc(8) [OF ok])
  have p2: "2 < fe_p fe" using fe_ok_P [OF ok] by (simp add: fe_P_def)
  have e: "fst (mpn_sub_1 ?w (fe_p fe) (fe_limbs fe) 2) = fe_p fe - 2"
  proof -
    have "(2::nat) < 2 ^ (?w * 1)" using fe_ok_sc(1) [OF ok] power_increasing [of 2 ?w "2::nat"]
      by (simp add: sc_ok_def)
    then have "limbs_val ?w 1 2 = 2" by (rule limbs_val_id)
    moreover have "limbs_val ?w (fe_limbs fe) (fe_p fe) = fe_p fe"
      by (rule limbs_val_id [OF fe_ok_lt_limbs [OF ok]])
    ultimately show ?thesis using p2 by (simp add: mpn_sub_1_def Let_def)
  qed
  have em: "(fe_p fe - 2) mod 2 ^ fe_bits fe = fe_p fe - 2" using fe_ok_lt_bits [OF ok] by simp
  have c: "case invert_fn fe of None \<Rightarrow> True
          | Some f \<Rightarrow> \<forall>a. fe_elem fe a \<longrightarrow> fe_elem fe (f a) \<and> (a \<noteq> 0 \<longrightarrow> (a * f a) mod ?P = 1)"
    using ok unfolding fe_ok_def by (elim conjE)
  show "fe_elem fe (fst (fe_invert fe a))"
  proof (cases "invert_fn fe")
    case None
    then show ?thesis by (simp add: fe_invert_def Let_def fe_pow_correct [OF ok] fe_elem_mod [OF ok])
  next
    case (Some f)
    then show ?thesis using c a by (simp add: fe_invert_def Let_def)
  qed
  assume a0: "a \<noteq> 0"
  show "(a * fst (fe_invert fe a)) mod ?P = 1"
  proof (cases "invert_fn fe")
    case None
    have am: "a mod int (fe_p fe) \<noteq> 0" using a a0 by (simp add: fe_elem_def fe_P_def)
    have "a * a ^ (fe_p fe - 2) = a ^ (fe_p fe - 1)"
      using p2 by (simp add: power_Suc [symmetric] Suc_diff_Suc numeral_2_eq_2 del: power_Suc)
    then have "(a * (a ^ (fe_p fe - 2) mod ?P)) mod ?P = a ^ (fe_p fe - 1) mod ?P"
      by (simp add: mod_simps)
    also have "\<dots> = 1" unfolding fe_P_def by (rule fermat_int [OF p am])
    finally show ?thesis using None by (simp add: fe_invert_def Let_def fe_pow_correct [OF ok] e em)
  next
    case (Some f)
    then show ?thesis using c a a0 by (simp add: fe_invert_def Let_def)
  qed
qed


lemma fe_sqrt_correct:
  assumes ok: "fe_ok fe" and a: "fe_elem fe a"
    and can: "sqrt_fn fe \<noteq> None \<or> limb_at (numb_bits (fe_sc fe)) (fe_p fe) 0 mod 4 = 3
              \<or> limb_at (numb_bits (fe_sc fe)) (fe_p fe) 0 mod 8 = 5"
  shows "\<exists>r ret. fe_sqrt fe a = Some (r, ret) \<and> fe_elem fe r \<and> (ret \<longrightarrow> (r * r) mod fe_P fe = a)"
proof (cases "sqrt_fn fe")
  case (Some f)
  have "case sqrt_fn fe of None \<Rightarrow> True
        | Some f \<Rightarrow> \<forall>a. fe_elem fe a \<longrightarrow> fe_elem fe (fst (f a))
                          \<and> (snd (f a) \<longleftrightarrow> (fst (f a) * fst (f a)) mod fe_P fe = a)"
    using ok unfolding fe_ok_def by (elim conjE)
  then have "fe_elem fe (fst (f a)) \<and> (snd (f a) \<longleftrightarrow> (fst (f a) * fst (f a)) mod fe_P fe = a)"
    using Some a by simp
  then show ?thesis using Some by (cases "f a") (simp add: fe_sqrt_def)
next
  case None
  let ?w = "numb_bits (fe_sc fe)" and ?l = "fe_limbs fe"
  define b1 where "b1 = fe_pow fe a (mpn_rshift ?w (fst (mpn_add_1 ?w (limbs_val ?w (?l + 1) (fe_p fe)) (?l + 1) 1)) (?l + 1) 2)"
  define c where "c = fe_pow fe (fe_add fe a a) (mpn_rshift ?w (fst (mpn_sub_1 ?w (limbs_val ?w ?l (fe_p fe)) ?l 5)) ?l 3)"
  define b2 where "b2 = fe_mul fe (fe_mul fe (fe_sub fe (fe_mul fe (fe_sqr fe c) (fe_add fe a a)) (c_one fe)) a) c"
  have e1: "fe_elem fe b1" unfolding b1_def fe_pow_correct [OF ok] by (rule fe_elem_mod [OF ok])
  have e2: "fe_elem fe b2" unfolding b2_def fe_mul_eq by (rule fe_elem_mod [OF ok])
  have eq: "fe_equal fe (fe_sqr fe b) a = ((b * b) mod fe_P fe = a)" for b
    using a by (simp add: fe_equal_iff [OF ok] fe_sqr_eq fe_elem_id)
  show ?thesis
  proof (cases "limb_at ?w (fe_p fe) 0 mod 4 = 3")
    case True
    have "fe_sqrt fe a = Some (b1, fe_equal fe (fe_sqr fe b1) a)"
      using None True by (simp add: fe_sqrt_def Let_def b1_def)
    then show ?thesis using e1 eq by simp
  next
    case False
    then have 5: "limb_at ?w (fe_p fe) 0 mod 8 = 5" using can None by simp
    have "fe_sqrt fe a = Some (b2, fe_equal fe (fe_sqr fe b2) a)"
      using None False 5 by (simp add: fe_sqrt_def Let_def b2_def c_def)
    then show ?thesis using e2 eq by simp
  qed
qed

lemma fe_isqrt_correct:
  assumes ok: "fe_ok fe" and u: "fe_elem fe u" and v: "fe_elem fe v"
    and can: "isqrt_fn fe \<noteq> None \<or> sqrt_fn fe \<noteq> None
              \<or> limb_at (numb_bits (fe_sc fe)) (fe_p fe) 0 mod 4 = 3
              \<or> limb_at (numb_bits (fe_sc fe)) (fe_p fe) 0 mod 8 = 5"
  shows "\<exists>r ret. fe_isqrt fe u v = Some (r, ret) \<and> fe_elem fe r
           \<and> (ret \<longrightarrow> (r * r * v) mod fe_P fe = u)"
proof (cases "isqrt_fn fe")
  case (Some f)
  have "case isqrt_fn fe of None \<Rightarrow> True
        | Some f \<Rightarrow> \<forall>u v. fe_elem fe u \<and> fe_elem fe v \<longrightarrow> fe_elem fe (fst (f u v))
                          \<and> (snd (f u v) \<longrightarrow> (fst (f u v) * fst (f u v) * v) mod fe_P fe = u)"
    using ok unfolding fe_ok_def by (elim conjE)
  then have "fe_elem fe (fst (f u v)) \<and> (snd (f u v) \<longrightarrow> (fst (f u v) * fst (f u v) * v) mod fe_P fe = u)"
    using Some u v by simp
  then show ?thesis using Some by (cases "f u v") (simp add: fe_isqrt_def)
next
  case None
  let ?P = "fe_P fe"
  define z where "z = fst (fe_invert fe v)"
  define z' where "z' = fe_mul fe z u"
  have ze: "fe_elem fe z'" unfolding z'_def fe_mul_eq by (rule fe_elem_mod [OF ok])
  have can': "sqrt_fn fe \<noteq> None \<or> limb_at (numb_bits (fe_sc fe)) (fe_p fe) 0 mod 4 = 3
              \<or> limb_at (numb_bits (fe_sc fe)) (fe_p fe) 0 mod 8 = 5" using can None by simp
  obtain r ret2 where s: "fe_sqrt fe z' = Some (r, ret2)" and re: "fe_elem fe r"
    and rr: "ret2 \<longrightarrow> (r * r) mod ?P = z'"
    using fe_sqrt_correct [OF ok ze can'] by blast
  have ret1: "snd (fe_invert fe v) = (v \<noteq> 0)"
    using v by (simp add: fe_invert_ret [OF ok] fe_elem_id)
  have i: "fe_isqrt fe u v = Some (r, v \<noteq> 0 \<and> ret2)"
    using None s ret1 by (simp add: fe_isqrt_def Let_def case_prod_beta z'_def z_def)
  have "(r * r * v) mod ?P = u" if v0: "v \<noteq> 0" and r2: "ret2"
  proof -
    have inv: "(v * z) mod ?P = 1" unfolding z_def by (rule fe_invert_correct(2) [OF ok v v0])
    have "(r * r * v) mod ?P = ((r * r) mod ?P * v) mod ?P" by (simp add: mod_simps)
    also have "\<dots> = (((z * u) mod ?P) * v) mod ?P" using rr r2 by (simp add: z'_def fe_mul_eq)
    also have "\<dots> = (((v * z) mod ?P) * u) mod ?P" by (simp add: mod_simps algebra_simps)
    also have "\<dots> = u" unfolding inv using u by (simp add: fe_elem_id)
    finally show ?thesis .
  qed
  then show ?thesis using i re by simp
qed


lemma neg_mod_parity:
  assumes P: "odd (P::int)" and x: "0 < x" "x < P"
  shows "(- x) mod P = P - x" "((P - x) mod 2 = 1) = (x mod 2 \<noteq> 1)"
proof -
  show "(- x) mod P = P - x" using x by (simp add: zmod_zminus1_eq_if)
  have "odd (P - x) = even x" using P by simp
  then show "((P - x) mod 2 = 1) = (x mod 2 \<noteq> 1)"
    by (simp add: odd_iff_mod_2_eq_one [symmetric])
qed

lemma fe_ok_odd:
  assumes ok: "fe_ok fe"
  shows "odd (fe_P fe)"
proof -
  have "2 < fe_p fe" using fe_ok_P [OF ok] by (simp add: fe_P_def)
  then have "odd (fe_p fe)" by (rule prime_nat_odd [OF fe_ok_sc(8) [OF ok]])
  then show ?thesis by (simp add: fe_P_def)
qed


lemma fe_set_odd_eq:
  assumes ok: "fe_ok fe" and x: "fe_elem fe x"
  shows "fe_set_odd fe x sign = (if (x mod 2 = 1) \<noteq> sign then (- x) mod fe_P fe else x)"
proof -
  have o: "fe_is_odd fe x = (x mod 2 = 1)" using x by (simp add: fe_is_odd_iff [OF ok] fe_elem_id)
  show ?thesis unfolding fe_set_odd_def fe_neg_cond_def fe_select_eq fe_neg_eq o ..
qed

lemma fe_set_odd_correct:
  assumes ok: "fe_ok fe" and x: "fe_elem fe x"
  shows "fe_elem fe (fe_set_odd fe x sign)"
    and "(fe_set_odd fe x sign * fe_set_odd fe x sign) mod fe_P fe = (x * x) mod fe_P fe"
    and "(fe_set_odd fe x sign = 0) = (x = 0)"
    and "fe_set_odd fe x sign \<noteq> 0 \<Longrightarrow> (fe_set_odd fe x sign mod 2 = 1) = sign"
proof -
  let ?P = "fe_P fe"
  let ?flag = "(x mod 2 = 1) \<noteq> sign"
  note so = fe_set_odd_eq [OF ok x, of sign]
  have P: "odd ?P" by (rule fe_ok_odd [OF ok])
  show "fe_elem fe (fe_set_odd fe x sign)" unfolding so using x fe_elem_mod [OF ok] by simp
  have "((- x) mod ?P * ((- x) mod ?P)) mod ?P = ((- x) * (- x)) mod ?P" by (rule mod_mult_eq)
  then show "(fe_set_odd fe x sign * fe_set_odd fe x sign) mod ?P = (x * x) mod ?P"
    unfolding so by simp
  show z: "(fe_set_odd fe x sign = 0) = (x = 0)"
  proof (cases "x = 0")
    case True
    then show ?thesis unfolding so by simp
  next
    case False
    then have r: "0 < x" "x < ?P" using x by (simp_all add: fe_elem_def)
    show ?thesis unfolding so neg_mod_parity(1) [OF P r] using False r by simp
  qed
  assume "fe_set_odd fe x sign \<noteq> 0"
  then have "x \<noteq> 0" using z by simp
  then have r: "0 < x" "x < ?P" using x by (simp_all add: fe_elem_def)
  show "(fe_set_odd fe x sign mod 2 = 1) = sign"
  proof (cases ?flag)
    case True
    then have e: "fe_set_odd fe x sign = ?P - x" unfolding so neg_mod_parity(1) [OF P r] by simp
    show ?thesis unfolding e neg_mod_parity(2) [OF P r] using True by blast
  next
    case False
    then have e: "fe_set_odd fe x sign = x" unfolding so by simp
    show ?thesis unfolding e using False by simp
  qed
qed


lemma mont_mul_loop_fold:
  "mont_mul_loop ec p k n st = foldl (mont_mul_step ec p k) st (rev [0..<n])"
  by (induction n arbitrary: st) simp_all

lemma sc_get_bit_eq: "0 < numb_bits sc \<Longrightarrow> sc_get_bit sc k i = (k div 2 ^ i) mod 2"
  unfolding sc_get_bit_def by (rule bit_extract)

lemma low_bits_mod:
  assumes "i < n"
  shows "((k mod 2 ^ n) div 2 ^ i) mod 2 = ((k::nat) div 2 ^ i) mod 2"
proof -
  have "((k mod 2 ^ n) div 2 ^ i) mod 2 = take_bit 1 (drop_bit i (take_bit n k))"
    by (simp add: take_bit_eq_mod drop_bit_eq_div)
  also have "\<dots> = take_bit 1 (take_bit (n - i) (drop_bit i k))" by (simp add: drop_bit_take_bit)
  also have "\<dots> = take_bit 1 (drop_bit i k)"
  proof -
    have "min 1 (n - i) = 1" using assms by linarith
    then show ?thesis by (simp only: take_bit_take_bit)
  qed
  finally show ?thesis by (simp add: take_bit_eq_mod drop_bit_eq_div)
qed

lemma mont_mul_step_low:
  assumes w: "0 < numb_bits (mont_sc ec)" and i: "i < n"
  shows "mont_mul_step ec p (k mod 2 ^ n) st i = mont_mul_step ec p k st i"
  unfolding mont_mul_step_def sc_get_bit_eq [OF w] low_bits_mod [OF i] ..

lemma mont_mul_loop_low:
  assumes w: "0 < numb_bits (mont_sc ec)"
  shows "m \<le> n \<Longrightarrow> mont_mul_loop ec p (k mod 2 ^ n) m st = mont_mul_loop ec p k m st"
  by (induction m arbitrary: st) (simp_all add: mont_mul_step_low [OF w])


lemma m13_step:
  "mont_mul_step m13 p k (\<lparr> pge_x = ax, pge_z = az \<rparr>, \<lparr> pge_x = bx, pge_z = bz \<rparr>, s) i =
     (if s XOR (k div 2 ^ i) mod 2 \<noteq> 0
      then (fst (pge_ladder m13 p \<lparr> pge_x = bx, pge_z = bz \<rparr> \<lparr> pge_x = ax, pge_z = az \<rparr>),
            snd (pge_ladder m13 p \<lparr> pge_x = bx, pge_z = bz \<rparr> \<lparr> pge_x = ax, pge_z = az \<rparr>),
            (k div 2 ^ i) mod 2)
      else (fst (pge_ladder m13 p \<lparr> pge_x = ax, pge_z = az \<rparr> \<lparr> pge_x = bx, pge_z = bz \<rparr>),
            snd (pge_ladder m13 p \<lparr> pge_x = ax, pge_z = az \<rparr> \<lparr> pge_x = bx, pge_z = bz \<rparr>),
            (k div 2 ^ i) mod 2))"
  by (simp add: mont_mul_step_def sc_get_bit_eq m13_more Let_def pge_swap_def fe_swap_def
      split: prod.splits)



text \<open>
  Claim C6.  \<^verbatim>\<open>mont_mul\<close> runs its ladder step for the bit indices
  \<open>bits(p) - 1, \<dots>, 0\<close>, that is \<open>bits(p)\<close> times, the width of the field and not of the
  scalar; the step for index \<open>i\<close> swaps the two working points on \<open>swap XOR bit\<close>, where
  \<open>bit\<close> is bit \<open>i\<close> of the scalar as it was passed in, applies \<^verbatim>\<open>pge_ladder\<close> and keeps
  \<open>bit\<close> as the next \<open>swap\<close>; one more swap on the last \<open>swap\<close> closes the loop.  So the
  result depends only on the low \<open>bits(p)\<close> bits of the scalar, which the function reads
  unclamped.
\<close>

theorem mont_mul_ladder:
  assumes "0 < numb_bits (mont_sc ec)"
    and "fe_bits (mont_fe ec) \<le> sc_limbs (mont_sc ec) * numb_bits (mont_sc ec)"
  shows "mont_mul ec p k =
           (case foldl (mont_mul_step ec p k) (pge_zero ec, p, 0) (rev [0..<fe_bits (mont_fe ec)]) of
              (a, b, swap) \<Rightarrow> Some (fst (pge_swap ec a b (swap \<noteq> 0))))
         \<and> length (rev [0..<fe_bits (mont_fe ec)]) = fe_bits (mont_fe ec)
         \<and> (\<forall>a b swap i. mont_mul_step ec p k (a, b, swap) i =
               (case pge_swap ec a b (swap XOR (k div 2 ^ i) mod 2 \<noteq> 0) of
                  (a', b') \<Rightarrow> (fst (pge_ladder ec p a' b'), snd (pge_ladder ec p a' b'),
                               (k div 2 ^ i) mod 2)))
         \<and> mont_mul ec p k = mont_mul ec p (k mod 2 ^ fe_bits (mont_fe ec))"
proof -
  have 1: "mont_mul ec p k =
           (case foldl (mont_mul_step ec p k) (pge_zero ec, p, 0) (rev [0..<fe_bits (mont_fe ec)]) of
              (a, b, swap) \<Rightarrow> Some (fst (pge_swap ec a b (swap \<noteq> 0))))"
    using assms(2)
    by (simp add: mont_mul_def mont_mul_loop_fold Let_def split: prod.splits)
  have 3: "mont_mul_step ec p k (a, b, swap) i =
               (case pge_swap ec a b (swap XOR (k div 2 ^ i) mod 2 \<noteq> 0) of
                  (a', b') \<Rightarrow> (fst (pge_ladder ec p a' b'), snd (pge_ladder ec p a' b'),
                               (k div 2 ^ i) mod 2))" for a b swap i
    by (simp add: mont_mul_step_def sc_get_bit_eq [OF assms(1)] Let_def split: prod.splits)
  have 4: "mont_mul ec p k = mont_mul ec p (k mod 2 ^ fe_bits (mont_fe ec))"
    by (simp add: mont_mul_def mont_mul_loop_low [OF assms(1)])
  show ?thesis using 1 3 4 by simp
qed

text \<open>
  Witness for C6 on the small Montgomery curve, at the point \<open>x = 3\<close>: the scalars 5 and
  21 agree on their low four bits, and the scalars 0 and 1 give different results,
  although the clamping routine of the curve would map both to 8.
\<close>

theorem mont_mul_ladder_witness:
  "0 < numb_bits (mont_sc m13)
   \<and> fe_bits (mont_fe m13) \<le> sc_limbs (mont_sc m13) * numb_bits (mont_sc m13)
   \<and> mont_mul m13 \<lparr> pge_x = 3, pge_z = 1 \<rparr> 21 = mont_mul m13 \<lparr> pge_x = 3, pge_z = 1 \<rparr> 5
   \<and> mont_mul m13 \<lparr> pge_x = 3, pge_z = 1 \<rparr> 5 = Some \<lparr> pge_x = 4, pge_z = 10 \<rparr>
   \<and> mont_mul m13 \<lparr> pge_x = 3, pge_z = 1 \<rparr> 1 = Some \<lparr> pge_x = 10, pge_z = 12 \<rparr>
   \<and> mont_mul m13 \<lparr> pge_x = 3, pge_z = 1 \<rparr> 0 = Some \<lparr> pge_x = 1, pge_z = 0 \<rparr>"
proof -
  have h: "0 < numb_bits (mont_sc m13)"
    "fe_bits (mont_fe m13) \<le> sc_limbs (mont_sc m13) * numb_bits (mont_sc m13)"
    by (simp_all add: m13_more)
  have "mont_mul m13 \<lparr> pge_x = 3, pge_z = 1 \<rparr> 21
      = mont_mul m13 \<lparr> pge_x = 3, pge_z = 1 \<rparr> (21 mod 2 ^ fe_bits (mont_fe m13))"
    using mont_mul_ladder [OF h, of "\<lparr> pge_x = 3, pge_z = 1 \<rparr>" 21] by (elim conjE)
  then have e: "mont_mul m13 \<lparr> pge_x = 3, pge_z = 1 \<rparr> 21 = mont_mul m13 \<lparr> pge_x = 3, pge_z = 1 \<rparr> 5"
    by (simp add: m13_more)
  have v: "mont_mul m13 \<lparr> pge_x = 3, pge_z = 1 \<rparr> 5 = Some \<lparr> pge_x = 4, pge_z = 10 \<rparr>"
    "mont_mul m13 \<lparr> pge_x = 3, pge_z = 1 \<rparr> 1 = Some \<lparr> pge_x = 10, pge_z = 12 \<rparr>"
    "mont_mul m13 \<lparr> pge_x = 3, pge_z = 1 \<rparr> 0 = Some \<lparr> pge_x = 1, pge_z = 0 \<rparr>"
    by (simp_all add: mont_mul_def mont_mul_loop_fold m13_more idx4 m13_step pge_ladder_def
        m13_ops Let_def pge_swap_def fe_swap_def)
  show ?thesis by (intro conjI h e v)
qed

lemma mont_ok_fe: "mont_ok ec \<Longrightarrow> fe_ok (mont_fe ec)"
  and mont_ok_le: "mont_ok ec \<Longrightarrow> fe_endian (mont_fe ec) = - 1"
  and mont_ok_bits: "mont_ok ec \<Longrightarrow> fe_bits (mont_fe ec) \<le> sc_limbs (mont_sc ec) * numb_bits (mont_sc ec)"
  unfolding mont_ok_def by blast+

lemma pge_import_correct:
  assumes ok: "mont_ok ec" and len: "fe_size (mont_fe ec) \<le> length pub"
  shows "pge_import ec pub =
     Some \<lparr> pge_x = int (le_val (take (fe_size (mont_fe ec)) pub) mod 2 ^ fe_bits (mont_fe ec))
                      mod fe_P (mont_fe ec),
            pge_z = 1 \<rparr>"
  unfolding pge_import_def fe_import_uniform_correct [OF mont_ok_fe [OF ok] len] mont_ok_le [OF ok]
  by (simp add: bytes_val_def fe_ok_consts [OF mont_ok_fe [OF ok]])

lemma pge_ladder_elem:
  assumes ok: "fe_ok (mont_fe ec)"
  shows "fe_elem (mont_fe ec) (pge_x (fst (pge_ladder ec p1 p2 p3)))"
    "fe_elem (mont_fe ec) (pge_z (fst (pge_ladder ec p1 p2 p3)))"
    "fe_elem (mont_fe ec) (pge_x (snd (pge_ladder ec p1 p2 p3)))"
    "fe_elem (mont_fe ec) (pge_z (snd (pge_ladder ec p1 p2 p3)))"
  by (simp_all add: pge_ladder_def Let_def fe_mul_eq fe_elem_mod [OF ok])


lemma mont_mul_step_elem:
  assumes ok: "fe_ok (mont_fe ec)"
  shows "pge_elem ec (fst (mont_mul_step ec p k st i)) \<and> pge_elem ec (fst (snd (mont_mul_step ec p k st i)))"
  by (simp add: mont_mul_step_def Let_def pge_elem_def pge_ladder_elem [OF ok] split: prod.splits)
    (metis fst_conv snd_conv pge_ladder_elem [OF ok])


lemma mont_mul_loop_elem:
  assumes ok: "fe_ok (mont_fe ec)"
  shows "0 < n \<Longrightarrow> pge_elem ec (fst (mont_mul_loop ec p k n st))
           \<and> pge_elem ec (fst (snd (mont_mul_loop ec p k n st)))"
proof (induction n arbitrary: st)
  case 0
  then show ?case by simp
next
  case (Suc i)
  show ?case
  proof (cases "i = 0")
    case True
    then show ?thesis using mont_mul_step_elem [OF ok] by simp
  next
    case False
    then show ?thesis using Suc.IH [of "mont_mul_step ec p k st i"] by simp
  qed
qed

lemma pge_swap_elem:
  "pge_elem ec a \<Longrightarrow> pge_elem ec b \<Longrightarrow> pge_elem ec (fst (pge_swap ec a b flag))"
  by (simp add: pge_swap_def fe_swap_def pge_elem_def)

lemma mont_mul_elem:
  assumes ok: "mont_ok ec"
  shows "\<exists>r. mont_mul ec p k = Some r \<and> pge_elem ec r"
proof -
  let ?st = "mont_mul_loop ec p k (fe_bits (mont_fe ec)) (pge_zero ec, p, 0)"
  have f: "fe_ok (mont_fe ec)" by (rule mont_ok_fe [OF ok])
  have "0 < fe_bits (mont_fe ec)" using fe_ok_sc [OF f] by (simp add: sc_ok_def)
  then have e: "pge_elem ec (fst ?st)" "pge_elem ec (fst (snd ?st))"
    using mont_mul_loop_elem [OF f] by simp_all
  have "mont_mul ec p k = Some (fst (pge_swap ec (fst ?st) (fst (snd ?st)) (snd (snd ?st) \<noteq> 0)))"
    using mont_ok_bits [OF ok] by (simp add: mont_mul_def Let_def split: prod.splits)
  then show ?thesis using pge_swap_elem [OF e] by simp
qed

lemma pge_export_flag:
  assumes ok: "mont_ok ec" and a: "pge_elem ec a"
  shows "\<exists>raw. pge_export ec a = Some (pge_z a \<noteq> 0, raw) \<and> length raw = fe_size (mont_fe ec)"
proof -
  let ?fe = "mont_fe ec"
  have f: "fe_ok ?fe" by (rule mont_ok_fe [OF ok])
  have z: "fe_is_zero ?fe (pge_z a) = (pge_z a = 0)"
    using a by (simp add: pge_elem_def fe_is_zero_elem [OF f])
  have r: "snd (fe_invert ?fe (pge_z a)) = (pge_z a \<noteq> 0)"
    by (simp add: fe_invert_def Let_def z split: option.splits)
  obtain raw where "fe_export ?fe (fe_mul ?fe (fst (fe_invert ?fe (pge_z a))) (pge_x a)) = Some raw"
    and "length raw = fe_size ?fe"
    using fe_export_correct [OF f] by blast
  then show ?thesis using r by (simp add: pge_export_def Let_def case_prod_beta)
qed

text \<open>
  Claim C10.  For a public key string of at least \<open>size(p)\<close> bytes and any private key,
  \<^verbatim>\<open>pge_import\<close> always returns: the \<open>u\<close>-coordinate is the little-endian value of the first
  \<open>size(p)\<close> bytes, cut to \<open>bits(p)\<close> bits and reduced modulo \<open>p\<close>, with \<open>Z = 1\<close>, and no other
  test is made.  The ladder returns a point \<open>P\<close>, and \<^verbatim>\<open>ecdh_derive\<close> returns the flag
  \<open>Z(P) \<noteq> 0\<close>: it fails exactly when the ladder output has \<open>Z = 0\<close>.
\<close>

theorem ecdh_derive_fails_iff_zero:
  assumes "mont_ok ec" and "fe_size (mont_fe ec) \<le> length pub"
  shows "\<exists>P raw.
           pge_import ec pub =
             Some \<lparr> pge_x = int (le_val (take (fe_size (mont_fe ec)) pub) mod 2 ^ fe_bits (mont_fe ec))
                              mod fe_P (mont_fe ec),
                    pge_z = 1 \<rparr>
           \<and> mont_mul ec (the (pge_import ec pub))
                 (fst (sc_import (mont_sc ec) (mont_clamp ec priv))) = Some P
           \<and> fe_elem (mont_fe ec) (pge_z P)
           \<and> ecdh_derive ec pub priv = Some (pge_z P \<noteq> 0, raw)
           \<and> length raw = fe_size (mont_fe ec)"
proof -
  let ?a = "fst (sc_import (mont_sc ec) (mont_clamp ec priv))"
  note imp = pge_import_correct [OF assms]
  obtain A where A: "pge_import ec pub = Some A" using imp by simp
  have tA: "the (pge_import ec pub) = A" unfolding A by simp
  obtain P where P: "mont_mul ec A ?a = Some P" and e: "pge_elem ec P"
    using mont_mul_elem [OF assms(1)] by blast
  obtain raw where x: "pge_export ec P = Some (pge_z P \<noteq> 0, raw)"
    and l: "length raw = fe_size (mont_fe ec)"
    using pge_export_flag [OF assms(1) e] by blast
  have d: "ecdh_derive ec pub priv = Some (pge_z P \<noteq> 0, raw)"
    unfolding ecdh_derive_def Let_def A using P x by simp
  have z: "fe_elem (mont_fe ec) (pge_z P)" using e by (simp add: pge_elem_def)
  show ?thesis unfolding tA using imp P z d l by blast
qed

text \<open>
  Witness for C10 on the small Montgomery curve.  The public key byte \<open>0x13\<close> is cut to
  four bits and decodes to \<open>u = 3\<close>, a point of order 3.  The private key \<open>0x05\<close> clamps to
  12, a multiple of 3: the ladder ends with \<open>Z = 0\<close> and the derivation fails.  The
  private key \<open>0x01\<close> clamps to 8 and the derivation succeeds.
\<close>

theorem ecdh_derive_fails_iff_zero_witness:
  "mont_ok m13 \<and> fe_size (mont_fe m13) \<le> length [0x13 :: byte]
   \<and> pge_import m13 [0x13] = Some \<lparr> pge_x = 3, pge_z = 1 \<rparr>
   \<and> mont_mul m13 \<lparr> pge_x = 3, pge_z = 1 \<rparr> 12 = Some \<lparr> pge_x = 1, pge_z = 0 \<rparr>
   \<and> ecdh_derive m13 [0x13] [0x05] = Some (False, [0])
   \<and> mont_mul m13 \<lparr> pge_x = 3, pge_z = 1 \<rparr> 8 = Some \<lparr> pge_x = 10, pge_z = 12 \<rparr>
   \<and> ecdh_derive m13 [0x13] [0x01] = Some (True, [3])"
proof -
  have len: "fe_size (mont_fe m13) \<le> length [0x13 :: byte]"
    by (simp add: m13_fields f13_le_fields)
  have "\<exists>P raw. pge_import m13 [0x13] =
      Some \<lparr> pge_x = int (le_val (take (fe_size (mont_fe m13)) [0x13]) mod 2 ^ fe_bits (mont_fe m13))
                       mod fe_P (mont_fe m13), pge_z = 1 \<rparr>
      \<and> mont_mul m13 (the (pge_import m13 [0x13]))
            (fst (sc_import (mont_sc m13) (mont_clamp m13 [0x05]))) = Some P
      \<and> fe_elem (mont_fe m13) (pge_z P)
      \<and> ecdh_derive m13 [0x13] [0x05] = Some (pge_z P \<noteq> 0, raw)
      \<and> length raw = fe_size (mont_fe m13)"
    by (rule ecdh_derive_fails_iff_zero [OF m13_ok len])
  then have imp: "pge_import m13 [0x13] = Some \<lparr> pge_x = 3, pge_z = 1 \<rparr>"
    by (auto simp add: m13_more m13_fields f13_le_fields fe_P_def)
  have c: "mont_clamp m13 [0x05] = [0x0c]" "mont_clamp m13 [0x01] = [0x08]"
    by (simp_all add: mont_clamp_def m13_def sc_set_fields)
  have s: "fst (sc_import (mont_sc m13) [0x0c]) = 12" "fst (sc_import (mont_sc m13) [0x08]) = 8"
    by (simp_all add: sc_import_def mpn_import_def m13_fields sc_set_fields bytes_val_def limbs_val_def)
  have m: "mont_mul m13 \<lparr> pge_x = 3, pge_z = 1 \<rparr> 12 = Some \<lparr> pge_x = 1, pge_z = 0 \<rparr>"
    "mont_mul m13 \<lparr> pge_x = 3, pge_z = 1 \<rparr> 8 = Some \<lparr> pge_x = 10, pge_z = 12 \<rparr>"
    by (simp_all add: mont_mul_def mont_mul_loop_fold m13_more idx4 m13_step pge_ladder_def
        m13_ops Let_def pge_swap_def fe_swap_def)
  have x: "pge_export m13 \<lparr> pge_x = 1, pge_z = 0 \<rparr> = Some (False, [0])"
    "pge_export m13 \<lparr> pge_x = 10, pge_z = 12 \<rparr> = Some (True, [3])"
    by (simp_all add: pge_export_def m13_fields f13_le_invert fe_mul_eq fe_export_def f13_le_fields
        backend_to_bytes_def le_bytes_def fe_P_def Let_def)
  have d: "ecdh_derive m13 [0x13] [0x05] = Some (False, [0])"
    "ecdh_derive m13 [0x13] [0x01] = Some (True, [3])"
    by (simp_all add: ecdh_derive_def Let_def c s imp m x)
  show ?thesis by (intro conjI m13_ok len imp m d)
qed


lemma ed_okD:
  assumes "ed_ok ec"
  shows "fe_ok (ed_fe ec)" "fe_endian (ed_fe ec) = - 1" "fe_elem (ed_fe ec) (ed_a ec)"
    "fe_elem (ed_fe ec) (ed_d ec)"
    "isqrt_fn (ed_fe ec) \<noteq> None \<or> sqrt_fn (ed_fe ec) \<noteq> None
      \<or> limb_at (numb_bits (fe_sc (ed_fe ec))) (fe_p (ed_fe ec)) 0 mod 4 = 3
      \<or> limb_at (numb_bits (fe_sc (ed_fe ec))) (fe_p (ed_fe ec)) 0 mod 8 = 5"
  using assms unfolding ed_ok_def by blast+

lemma xge_set_y_correct:
  assumes ok: "ed_ok ec" and y: "fe_elem (ed_fe ec) y" and sg: "sign = 0 \<or> sign = 1"
  shows "\<exists>x ret. xge_set_y ec y sign = Some (ret, xge_set_xy ec x y) \<and> fe_elem (ed_fe ec) x
           \<and> (ret \<longrightarrow> (x * x * (ed_d ec * y * y - ed_a ec)) mod fe_P (ed_fe ec)
                          = (y * y - 1) mod fe_P (ed_fe ec)
                        \<and> (x mod 2 = 1) = (sign \<noteq> 0))"
proof -
  let ?fe = "ed_fe ec" and ?P = "fe_P (ed_fe ec)"
  note f = ed_okD(1) [OF ok]
  define lhs where "lhs = fe_sub ?fe (fe_sqr ?fe y) (c_one ?fe)"
  define rhs where "rhs = fe_sub ?fe (fe_mul ?fe (ed_d ec) (fe_sqr ?fe y)) (ed_a ec)"
  have le: "fe_elem ?fe lhs" "fe_elem ?fe rhs"
    unfolding lhs_def rhs_def fe_sub_eq by (rule fe_elem_mod [OF f])+
  have lv: "lhs = (y * y - 1) mod ?P"
    by (simp add: lhs_def fe_sub_eq fe_sqr_eq fe_ok_consts(2) [OF f] mod_simps)
  have rv: "rhs = (ed_d ec * y * y - ed_a ec) mod ?P"
    by (simp add: rhs_def fe_sub_eq fe_sqr_eq fe_mul_eq mod_simps algebra_simps)
  obtain r ret where i: "fe_isqrt ?fe lhs rhs = Some (r, ret)" and re: "fe_elem ?fe r"
    and rr: "ret \<longrightarrow> (r * r * rhs) mod ?P = lhs"
    using fe_isqrt_correct [OF f le ed_okD(5) [OF ok]] by blast
  define x where "x = fe_set_odd ?fe r (sign \<noteq> 0)"
  note so = fe_set_odd_correct [OF f re, of "sign \<noteq> 0", folded x_def]
  have s1: "sign \<noteq> - 1" using sg by auto
  have e: "xge_set_y ec y sign
      = Some (ret \<and> \<not> (fe_is_zero ?fe x \<and> sign \<noteq> 0), xge_set_xy ec x y)"
    using i s1 by (simp add: xge_set_y_def Let_def lhs_def rhs_def x_def)
  have z: "fe_is_zero ?fe x = (x = 0)" by (rule fe_is_zero_elem [OF f so(1)])
  have "(x * x * (ed_d ec * y * y - ed_a ec)) mod ?P = (y * y - 1) mod ?P" if ret
  proof -
    have "(x * x * (ed_d ec * y * y - ed_a ec)) mod ?P = ((x * x) mod ?P * rhs) mod ?P"
      unfolding rv by (simp add: mod_simps)
    also have "\<dots> = (r * r * rhs) mod ?P" unfolding so(2) by (simp add: mod_simps)
    also have "\<dots> = lhs" using rr that by simp
    finally show ?thesis unfolding lv .
  qed
  moreover have "(x mod 2 = 1) = (sign \<noteq> 0)" if "\<not> (x = 0 \<and> sign \<noteq> 0)"
  proof (cases "x = 0")
    case True
    then show ?thesis using that by simp
  next
    case False
    then show ?thesis by (rule so(4))
  qed
  ultimately show ?thesis unfolding e z using so(1) by blast
qed



lemma top_bit: "uint (drop_bit 7 (b::byte)) = 0 \<or> uint (drop_bit 7 b) = 1"
proof -
  have d: "unat (drop_bit 7 b) = unat b div 2 ^ 7" by (simp only: unat_drop_bit_eq) (simp only: drop_bit_eq_div)
  have "unat b \<le> 255" using byte_lt_256 [of b] by linarith
  then have "unat b div 128 \<le> 255 div 128" by (rule div_le_mono)
  then have "unat b div 2 ^ 7 < 2" by simp
  then have "unat (drop_bit 7 b) = 0 \<or> unat (drop_bit 7 b) = 1" unfolding d by linarith
  then show ?thesis unfolding uint_nat by (elim disjE) simp_all
qed

lemma xge_import_decode:
  assumes ok: "ed_ok ec"
    and len: "(if fe_bits (ed_fe ec) mod 8 = 0 then fe_size (ed_fe ec) + 1 else fe_size (ed_fe ec)) \<le> length raw"
  shows "fe_bits (ed_fe ec) mod 8 = 0 \<Longrightarrow>
           fe_import (ed_fe ec) raw =
             Some (int (le_val (take (fe_size (ed_fe ec)) raw)) mod fe_P (ed_fe ec),
                   le_val (take (fe_size (ed_fe ec)) raw) < fe_p (ed_fe ec))"
    and "fe_bits (ed_fe ec) mod 8 \<noteq> 0 \<Longrightarrow>
           fe_import (ed_fe ec) ((take (fe_size (ed_fe ec)) raw)
               [fe_size (ed_fe ec) - 1 := (take (fe_size (ed_fe ec)) raw ! (fe_size (ed_fe ec) - 1)) AND 0x7f]) =
             Some (int (le_val (take (fe_size (ed_fe ec)) raw) mod 2 ^ (8 * fe_size (ed_fe ec) - 1))
                     mod fe_P (ed_fe ec),
                   le_val (take (fe_size (ed_fe ec)) raw) mod 2 ^ (8 * fe_size (ed_fe ec) - 1)
                     < fe_p (ed_fe ec))"
proof -
  let ?fe = "ed_fe ec" and ?n = "fe_size (ed_fe ec)"
  note f = ed_okD(1) [OF ok]
  note le = ed_okD(2) [OF ok]
  have fit: "(2::nat) ^ (8 * ?n) \<le> 2 ^ (numb_bits (fe_sc ?fe) * fe_limbs ?fe)"
    using fe_ok_bytes_fit [OF f] by (intro power_increasing) simp_all
  {
    assume "fe_bits ?fe mod 8 = 0"
    then have l: "?n \<le> length raw" using len by simp
    have "bytes_val (fe_endian ?fe) (take ?n raw) < 2 ^ (8 * ?n)" by (rule bytes_val_take_lt)
    then have v: "bytes_val (fe_endian ?fe) (take ?n raw) < 2 ^ (numb_bits (fe_sc ?fe) * fe_limbs ?fe)"
      using fit by linarith
    show "fe_import ?fe raw = Some (int (le_val (take ?n raw)) mod fe_P ?fe, le_val (take ?n raw) < fe_p ?fe)"
      using fe_import_correct [OF f l v] unfolding le by (simp add: bytes_val_def)
  }
  {
    assume "fe_bits ?fe mod 8 \<noteq> 0"
    then have l: "?n \<le> length raw" using len by simp
    let ?xs = "take ?n raw"
    let ?tmp = "?xs[?n - 1 := (?xs ! (?n - 1)) AND 0x7f]"
    obtain m where m: "?n = Suc m" using fe_ok_size_pos [OF f] by (cases ?n) simp_all
    have lx: "length ?xs = Suc m" using l m by simp
    have k: "(0x7f :: byte) = of_nat (2 ^ 7 - 1)" by simp
    have idx: "?n - 1 = m" using m by simp
    have "le_val (?xs[m := (?xs ! m) AND of_nat (2 ^ 7 - 1)]) = le_val ?xs mod (256 ^ m * 2 ^ 7)"
      by (rule le_val_mask_last [OF lx]) simp
    moreover have "(256::nat) ^ m * 2 ^ 7 = 2 ^ (8 * ?n - 1)"
      unfolding m pow256 power_add [symmetric] by simp
    ultimately have tv: "le_val ?tmp = le_val ?xs mod 2 ^ (8 * ?n - 1)" unfolding k idx by simp
    have tl: "?n \<le> length ?tmp" using l by simp
    have tt: "take ?n ?tmp = ?tmp" using l by simp
    have "le_val ?xs mod 2 ^ (8 * ?n - 1) < 2 ^ (8 * ?n - 1)" by simp
    also have "(2::nat) ^ (8 * ?n - 1) \<le> 2 ^ (8 * ?n)" by (intro power_increasing) simp_all
    finally have "le_val ?tmp < 2 ^ (numb_bits (fe_sc ?fe) * fe_limbs ?fe)" unfolding tv using fit by linarith
    then have v: "bytes_val (fe_endian ?fe) (take ?n ?tmp) < 2 ^ (numb_bits (fe_sc ?fe) * fe_limbs ?fe)"
      unfolding tt le by (simp add: bytes_val_def)
    have bv: "bytes_val (fe_endian ?fe) (take ?n ?tmp) = le_val ?xs mod 2 ^ (8 * ?n - 1)"
      unfolding tt le tv [symmetric] by (simp add: bytes_val_def)
    show "fe_import ?fe ?tmp = Some (int (le_val ?xs mod 2 ^ (8 * ?n - 1)) mod fe_P ?fe,
        le_val ?xs mod 2 ^ (8 * ?n - 1) < fe_p ?fe)"
      using fe_import_correct [OF f tl v] unfolding bv .
  }
qed

lemma parity_bit: "s = 0 \<or> s = (1::int) \<Longrightarrow> (x mod 2 = 1) = (s \<noteq> 0) \<Longrightarrow> x mod 2 = s"
  by (elim disjE) presburger+

text \<open>
  Claim C9.  \<^verbatim>\<open>xge_import\<close> always returns, and when it accepts, the decoded point
  \<open>(x, y, 1, x y)\<close> has \<open>y\<close> equal to the little-endian value of the encoding without its
  top bit, below \<open>p\<close>; \<open>x\<close> is a square root of \<open>(y\<^sup>2 - 1) / (d y\<^sup>2 - a)\<close>, that is
  \<open>x\<^sup>2 (d y\<^sup>2 - a) = y\<^sup>2 - 1\<close> in the field; and the parity of \<open>x\<close> is the encoded sign bit.
  In particular an accepted point with \<open>x = 0\<close> has sign bit 0: an encoding whose
  recovered \<open>x\<close> is zero and whose sign bit is 1 is rejected.
\<close>

theorem xge_import_sign:
  assumes "ed_ok ec"
    and "(if fe_bits (ed_fe ec) mod 8 = 0 then fe_size (ed_fe ec) + 1 else fe_size (ed_fe ec))
           \<le> length raw"
  shows "\<exists>res. xge_import ec raw = Some res \<and>
           (\<forall>r. res = Some r \<longrightarrow>
              (let fe = ed_fe ec; n = fe_size fe;
                   V = (if fe_bits fe mod 8 = 0 then le_val (take n raw)
                        else le_val (take n raw) mod 2 ^ (8 * n - 1));
                   s = uint (drop_bit 7 (raw ! (if fe_bits fe mod 8 = 0 then n else n - 1)));
                   x = xge_x r; y = xge_y r
               in V < fe_p fe \<and> y = int V \<and> fe_elem fe x
                  \<and> (x * x * (ed_d ec * y * y - ed_a ec)) mod fe_P fe = (y * y - 1) mod fe_P fe
                  \<and> x mod 2 = s \<and> (x = 0 \<longrightarrow> s = 0)
                  \<and> xge_z r = 1 \<and> xge_t r = (x * y) mod fe_P fe
                  \<and> (fe_bits fe mod 8 = 0 \<longrightarrow> (raw ! n) AND 0x7f = 0)))"
proof -
  let ?fe = "ed_fe ec" and ?n = "fe_size (ed_fe ec)"
  let ?V = "(if fe_bits ?fe mod 8 = 0 then le_val (take ?n raw)
             else le_val (take ?n raw) mod 2 ^ (8 * ?n - 1))"
  let ?k = "(if fe_bits ?fe mod 8 = 0 then ?n else ?n - 1)"
  let ?s = "uint (drop_bit 7 (raw ! ?k))"
  let ?inp = "(if fe_bits ?fe mod 8 = 0 then raw
               else (take ?n raw)[?n - 1 := (take ?n raw ! (?n - 1)) AND 0x7f])"
  note f = ed_okD(1) [OF assms(1)]
  have P: "0 < fe_P ?fe" using fe_ok_P [OF f] by simp
  have imp: "fe_import ?fe ?inp = Some (int ?V mod fe_P ?fe, ?V < fe_p ?fe)"
    using xge_import_decode [OF assms] by simp
  have sg: "?s = 0 \<or> ?s = 1" by (rule top_bit)
  have nth: "take ?n raw ! (?n - 1) = raw ! (?n - 1)" using fe_ok_size_pos [OF f] by simp
  have x1: "xge_import ec raw =
      (if fe_bits ?fe mod 8 = 0 \<and> (raw ! ?n) AND 0x7f \<noteq> 0 then Some None
       else if \<not> ?V < fe_p ?fe then Some None
       else (case xge_set_y ec (int ?V mod fe_P ?fe) ?s of
               None \<Rightarrow> None
             | Some (ret, r) \<Rightarrow> Some (if ret then Some r else None)))"
  proof (cases "fe_bits ?fe mod 8 = 0")
    case True
    then show ?thesis using imp by (simp add: xge_import_def Let_def)
  next
    case False
    then show ?thesis using imp by (simp add: xge_import_def Let_def)
  qed
  define bad where "bad = (fe_bits ?fe mod 8 = 0 \<and> (raw ! ?n) AND 0x7f \<noteq> 0)"
  define small where "small = (?V < fe_p ?fe)"
  show ?thesis
  proof (cases "bad \<or> \<not> small")
    case True
    then have "xge_import ec raw = Some None" unfolding x1 bad_def small_def by auto
    then show ?thesis by simp
  next
    case False
    then have "small" "\<not> bad" by blast+
    then have V: "?V < fe_p ?fe" and top: "fe_bits ?fe mod 8 = 0 \<longrightarrow> (raw ! ?n) AND 0x7f = 0"
      unfolding bad_def small_def by auto
    define y where "y = int ?V"
    have ym: "int ?V mod fe_P ?fe = y" unfolding y_def using V by (simp add: fe_P_def)
    have ye: "fe_elem ?fe y" unfolding y_def fe_elem_def fe_P_def using V by simp
    obtain x ret where sy: "xge_set_y ec y ?s = Some (ret, xge_set_xy ec x y)"
      and xe: "fe_elem ?fe x"
      and rr: "ret \<longrightarrow> (x * x * (ed_d ec * y * y - ed_a ec)) mod fe_P ?fe = (y * y - 1) mod fe_P ?fe
                 \<and> (x mod 2 = 1) = (?s \<noteq> 0)"
      using xge_set_y_correct [OF assms(1) ye sg] by blast
    have x2: "xge_import ec raw = Some (if ret then Some (xge_set_xy ec x y) else None)"
      unfolding x1 ym using V top sy by auto
    show ?thesis
    proof (cases ret)
      case False
      then show ?thesis unfolding x2 by simp
    next
      case True
      have par: "x mod 2 = ?s" using sg rr True by (intro parity_bit) blast+
      have zero: "x = 0 \<longrightarrow> ?s = 0" using par by auto
      define r0 where "r0 = xge_set_xy ec x y"
      have flds: "xge_x r0 = x" "xge_y r0 = y" "xge_z r0 = 1" "xge_t r0 = (x * y) mod fe_P ?fe"
        by (simp_all add: r0_def xge_set_xy_def fe_mul_eq fe_ok_consts(2) [OF f])
      have main: "let fe = ed_fe ec; n = fe_size fe;
                   V = (if fe_bits fe mod 8 = 0 then le_val (take n raw)
                        else le_val (take n raw) mod 2 ^ (8 * n - 1));
                   s = uint (drop_bit 7 (raw ! (if fe_bits fe mod 8 = 0 then n else n - 1)));
                   x = xge_x r0; y = xge_y r0
               in V < fe_p fe \<and> y = int V \<and> fe_elem fe x
                  \<and> (x * x * (ed_d ec * y * y - ed_a ec)) mod fe_P fe = (y * y - 1) mod fe_P fe
                  \<and> x mod 2 = s \<and> (x = 0 \<longrightarrow> s = 0)
                  \<and> xge_z r0 = 1 \<and> xge_t r0 = (x * y) mod fe_P fe
                  \<and> (fe_bits fe mod 8 = 0 \<longrightarrow> (raw ! n) AND 0x7f = 0)"
        unfolding Let_def flds using V xe rr True par zero top y_def by blast
      show ?thesis
      proof (rule exI [of _ "Some (xge_set_xy ec x y)"], intro conjI allI impI)
        show "xge_import ec raw = Some (Some (xge_set_xy ec x y))" unfolding x2 using True by simp
      next
        fix r
        assume "Some (xge_set_xy ec x y) = Some r"
        then have r: "r = r0" by (simp add: r0_def)
        show "let fe = ed_fe ec; n = fe_size fe;
                   V = (if fe_bits fe mod 8 = 0 then le_val (take n raw)
                        else le_val (take n raw) mod 2 ^ (8 * n - 1));
                   s = uint (drop_bit 7 (raw ! (if fe_bits fe mod 8 = 0 then n else n - 1)));
                   x = xge_x r; y = xge_y r
               in V < fe_p fe \<and> y = int V \<and> fe_elem fe x
                  \<and> (x * x * (ed_d ec * y * y - ed_a ec)) mod fe_P fe = (y * y - 1) mod fe_P fe
                  \<and> x mod 2 = s \<and> (x = 0 \<longrightarrow> s = 0)
                  \<and> xge_z r = 1 \<and> xge_t r = (x * y) mod fe_P fe
                  \<and> (fe_bits fe mod 8 = 0 \<longrightarrow> (raw ! n) AND 0x7f = 0)"
          unfolding r by (rule main)
      qed
    qed
  qed
qed


end
